theory Spec2Isabelle
  imports Main "HOL-Library.Word"
begin

section \<open>The log allocator of \<^verbatim>\<open>dbcore/sm-log-alloc.cpp\<close>\<close>

text \<open>
  A shallow embedding of \<^verbatim>\<open>sm_log_alloc_mgr\<close>: the block list of in-flight
  allocations, the producer operations \<^verbatim>\<open>allocate\<close>, \<^verbatim>\<open>release\<close>,
  \<^verbatim>\<open>discard\<close> and \<^verbatim>\<open>wait_for_durable\<close>, and the log write daemon.

  Conventions.
  \<^item> \<^verbatim>\<open>uint64_t\<close> and \<^verbatim>\<open>size_t\<close> are \<open>64 word\<close>, \<^verbatim>\<open>uint32_t\<close> is
    \<open>32 word\<close>: \<open>+\<close> and \<open>-\<close> wrap around as in the source.
  \<^item> The manager's fields keep their names without the leading underscore.
  \<^item> A \<^verbatim>\<open>log_allocation*\<close> is a natural number (the address); the block it points to
    is looked up in the field \<open>blocks\<close>, where \<open>None\<close> is a pointer not yet set.
  \<^item> Calls into the segment manager, the ring buffer, the condition variables and the
    file are recorded, newest first, in the field \<open>trace\<close>. What such a call returns
    is an input of the function that makes it.
  \<^item> A section that runs under \<^verbatim>\<open>_write_daemon_mutex\<close> is one atomic step, and so is
    one operation of the lock-free block list. Threads interleave between steps.
  \<^item> \<^verbatim>\<open>ASSERT\<close> is a debug check that is compiled out; the model runs on as the
    release build does. \<^verbatim>\<open>DIE\<close> and an uncaught exception end the process.
\<close>

type_synonym u64 = "64 word"
type_synonym u32 = "32 word"

subsection \<open>Log sequence numbers, segments, blocks\<close>

text \<open>An LSN is an offset stamped with the number of the segment that holds it.\<close>

record LSN =
  segment :: u32
  offset :: u64

record segment_id =
  segnum :: u32
  start_offset :: u64
  end_offset :: u64
  byte_offset :: u64

text \<open>
  Modelled from the spec: \<^verbatim>\<open>segment_id::make_lsn\<close> is declared outside this file; the
  spec says an LSN is the pair of segment number and offset that the segment manager
  produces by stamping an offset with its containing segment.
\<close>

definition make_lsn :: "segment_id \<Rightarrow> u64 \<Rightarrow> LSN" where
  "make_lsn sid off = \<lparr>segment = segnum sid, offset = off\<rparr>"

datatype log_record_type = LOG_SKIP | LOG_OTHER nat

text \<open>
  A record slot of a block. The source reads and writes \<^verbatim>\<open>type\<close>, \<^verbatim>\<open>payload_end\<close>
  and (through \<^verbatim>\<open>fill_skip_record\<close>) the next LSN of a skip record;
  \<open>other_fields\<close> stands for the rest of the slot, which this file never touches.
\<close>

record log_record =
  rtype :: log_record_type
  payload_end :: u64
  skip_next_lsn :: LSN
  other_fields :: nat

text \<open>
  A block laid over the ring buffer: the header and the record slots that follow it.
  \<open>records\<close> is the memory behind the flexible array, so every index holds something.
\<close>

record log_block =
  lsn :: LSN
  nrec :: u32
  checksum :: u32
  records :: "nat \<Rightarrow> log_record"

text \<open>
  Modelled from the spec: \<^verbatim>\<open>fill_skip_record\<close> is declared outside this file; the
  spec describes the skip record as \<^verbatim>\<open>{ type = SKIP, next_lsn, payload_end }\<close>, written
  with the given next LSN and payload size. The last argument of the source (whether to
  zero the payload bytes) does not touch the slot.
\<close>

definition fill_skip_record :: "log_record \<Rightarrow> LSN \<Rightarrow> u64 \<Rightarrow> bool \<Rightarrow> log_record" where
  "fill_skip_record r nxt payload_bytes zero_payload =
     r\<lparr>rtype := LOG_SKIP, payload_end := payload_bytes, skip_next_lsn := nxt\<rparr>"

text \<open>
  What the file uses and does not define: constants, the size of a block, the checksum,
  and the two offset functions of a segment.
\<close>

record params =
  MIN_LOG_BLOCK_SIZE :: u64
  NUM_LOG_SEGMENTS :: u32
  block_size :: "u32 \<Rightarrow> u64 \<Rightarrow> u64"
  full_checksum :: "log_block \<Rightarrow> u32"
  buf_offset :: "segment_id \<Rightarrow> u64 \<Rightarrow> u64"
  file_offset :: "segment_id \<Rightarrow> u64 \<Rightarrow> u64"
  window_size :: u64

subsection \<open>The manager's state\<close>

text \<open>A node of the block list: a \<^verbatim>\<open>log_allocation\<close> and its dead mark.\<close>

record log_allocation =
  addr :: nat
  lsn_offset :: u64
  next_lsn_offset :: u64
  dead :: bool

datatype event =
    Signal_write_daemon_cond
  | Broadcast_write_complete_cond
  | Wait_write_complete_cond
  | Wait_write_daemon_cond
  | Update_durable_mark LSN
  | Timer_reset
  | Write_buf u64 u64 bool
  | Advance_writer u64
  | Read_buf u64 u64
  | Pwrite u64 u64
  | Advance_reader u64
  | Close_fd
  | Open_for_write segment_id

text \<open>Where the daemon stands in its loop.\<close>

datatype daemon_pc = D_top | D_refreshed | D_scanned | D_flushing | D_asleep | D_exited | D_died

record alloc_mgr =
  block_list :: "log_allocation list"
  list_killed :: bool
  next_addr :: nat
  blocks :: "nat \<Rightarrow> log_block option"
  durable_lsn_offset :: u64
  waiting_for_durable :: u64
  waiting_for_dmark :: u64
  write_daemon_wait_count :: u64
  write_daemon_kick_count :: u64
  write_daemon_should_stop :: bool
  durable_mark :: LSN
  durable_sid :: segment_id
  durable_byte :: u64
  cur_offset :: u64
  oldest_offset :: u64
  pc :: daemon_pc
  trace :: "event list"

definition emit :: "event \<Rightarrow> alloc_mgr \<Rightarrow> alloc_mgr" where
  "emit e s = s\<lparr>trace := e # trace s\<rparr>"

subsection \<open>The block list\<close>

text \<open>
  Modelled from the spec: \<^verbatim>\<open>rcu_block_list\<close> is declared outside this file. The spec
  and the comments of the daemon say: the newest node is at the front (\<^verbatim>\<open>peek_raw(0)\<close>,
  which may be dead); \<^verbatim>\<open>push_callback\<close> inserts at the front and runs the callback with
  the predecessor visible, and fails once the list was killed; \<^verbatim>\<open>remove_fast\<close> marks
  its node dead without removing it and unlinks the dead nodes that follow it; iteration
  yields the live nodes, newest first; \<^verbatim>\<open>remove_and_kill\<close> removes its node only if
  it is still the newest, and then kills the list.
\<close>

definition peek_raw0 :: "alloc_mgr \<Rightarrow> log_allocation option" where
  "peek_raw0 s = (case block_list s of [] \<Rightarrow> None | n # _ \<Rightarrow> Some n)"

definition push_callback ::
  "(log_allocation \<Rightarrow> log_allocation \<Rightarrow> log_allocation) \<Rightarrow> alloc_mgr
     \<Rightarrow> (log_allocation \<times> alloc_mgr) option" where
  "push_callback cb s =
     (if list_killed s then None
      else case peek_raw0 s of
        None \<Rightarrow> None
      | Some prev \<Rightarrow>
          let fresh = \<lparr>addr = next_addr s, lsn_offset = 0, next_lsn_offset = 0, dead = False\<rparr>;
              n = cb fresh prev
          in Some (n, s\<lparr>block_list := n # block_list s, next_addr := Suc (next_addr s)\<rparr>))"

fun remove_fast_list :: "nat \<Rightarrow> log_allocation list \<Rightarrow> log_allocation list" where
  "remove_fast_list x [] = []"
| "remove_fast_list x (n # ns) =
     (if addr n = x then n\<lparr>dead := True\<rparr> # dropWhile dead ns
      else n # remove_fast_list x ns)"

definition remove_fast :: "nat \<Rightarrow> alloc_mgr \<Rightarrow> alloc_mgr" where
  "remove_fast x s = s\<lparr>block_list := remove_fast_list x (block_list s)\<rparr>"

definition live :: "log_allocation list \<Rightarrow> log_allocation list" where
  "live ns = filter (\<lambda>n. \<not> dead n) ns"

definition remove_and_kill :: "nat \<Rightarrow> alloc_mgr \<Rightarrow> bool \<times> alloc_mgr" where
  "remove_and_kill x s =
     (case block_list s of
        [] \<Rightarrow> (False, s)
      | n # ns \<Rightarrow>
          if addr n = x then (True, s\<lparr>block_list := ns, list_killed := True\<rparr>)
          else (False, s))"

subsection \<open>Reading the two watermarks\<close>

text \<open>
  \<^verbatim>\<open>cur_lsn_offset\<close> dereferences \<^verbatim>\<open>peek_raw(0)\<close>; on an empty list it has no value.
\<close>

definition cur_lsn_offset :: "alloc_mgr \<Rightarrow> u64 option" where
  "cur_lsn_offset s = map_option next_lsn_offset (peek_raw0 s)"

definition dur_lsn_offset :: "alloc_mgr \<Rightarrow> u64" where
  "dur_lsn_offset s = durable_lsn_offset s"

subsection \<open>Kicking the daemon, release and discard\<close>

definition kick_log_write_daemon :: "alloc_mgr \<Rightarrow> alloc_mgr" where
  "kick_log_write_daemon s =
     (if write_daemon_kick_count s < write_daemon_wait_count s
      then emit Signal_write_daemon_cond
             (s\<lparr>write_daemon_kick_count := write_daemon_kick_count s + 1\<rparr>)
      else s)"

definition release :: "nat \<Rightarrow> alloc_mgr \<Rightarrow> alloc_mgr" where
  "release x s =
     (let s1 = remove_fast x s
      in if write_daemon_kick_count s1 < write_daemon_wait_count s1
         then kick_log_write_daemon s1
         else s1)"

text \<open>The rewrite of the block in \<^verbatim>\<open>discard\<close>, statement by statement.\<close>

definition discard_block :: "params \<Rightarrow> log_block \<Rightarrow> log_block" where
  "discard_block ps b =
     (let n = unat (nrec b);
          b1 = b\<lparr>records := (records b)(0 := records b n)\<rparr>;
          b2 = b1\<lparr>records := (records b1)(0 := (records b1 0)\<lparr>payload_end := 0\<rparr>)\<rparr>;
          b3 = b2\<lparr>nrec := 0\<rparr>
      in b3\<lparr>checksum := full_checksum ps b3\<rparr>)"

text \<open>\<open>None\<close>: \<^verbatim>\<open>x->block\<close> was a null pointer.\<close>

definition discard :: "params \<Rightarrow> nat \<Rightarrow> alloc_mgr \<Rightarrow> alloc_mgr option" where
  "discard ps x s =
     (case blocks s x of
        None \<Rightarrow> None
      | Some b \<Rightarrow> Some (release x (s\<lparr>blocks := (blocks s)(x := Some (discard_block ps b))\<rparr>)))"

subsection \<open>The log write daemon\<close>

text \<open>
  Modelled from the spec: \<^verbatim>\<open>_lm.update_durable_mark\<close> and \<^verbatim>\<open>_lm.get_durable_mark\<close>
  belong to the segment manager, which holds the authoritative durable mark; the field
  \<open>durable_mark\<close> is the mark last stored.
\<close>

definition update_dmark :: "alloc_mgr \<Rightarrow> alloc_mgr" where
  "update_dmark s =
     (let dlsn = make_lsn (durable_sid s) (durable_lsn_offset s)
      in emit (Update_durable_mark dlsn) (s\<lparr>durable_mark := dlsn\<rparr>))"

definition DURABLE_MARK_TIMEOUT_NS :: u64 where
  "DURABLE_MARK_TIMEOUT_NS = 100 * 1000 * 1000"

text \<open>
  The head of the daemon's loop: the timed refresh of the durable mark on disk.
  \<open>time_ns\<close> is what the stopwatch reads.
\<close>

definition daemon_refresh :: "u64 \<Rightarrow> alloc_mgr \<Rightarrow> alloc_mgr" where
  "daemon_refresh time_ns s =
     (let dmark_offset = offset (durable_mark s);
          can_update = dmark_offset < durable_lsn_offset s;
          want_update = offset (durable_mark s) < waiting_for_dmark s;
          timeout = DURABLE_MARK_TIMEOUT_NS < time_ns
      in if can_update \<and> (want_update \<or> timeout)
         then (let s1 = emit Timer_reset (update_dmark s)
               in if want_update then emit Broadcast_write_complete_cond s1 else s1)
         else s)"

text \<open>The offset of the oldest live allocation, or the frontier when none is live.\<close>

definition daemon_scan :: "alloc_mgr \<Rightarrow> alloc_mgr" where
  "daemon_scan s =
     (case cur_lsn_offset s of
        None \<Rightarrow> s\<lparr>pc := D_died\<rparr>
      | Some c \<Rightarrow>
          s\<lparr>cur_offset := c,
            oldest_offset := foldl (\<lambda>_ x. lsn_offset x) c (live (block_list s)),
            pc := D_scanned\<rparr>)"

definition daemon_cb :: "log_allocation \<Rightarrow> log_allocation \<Rightarrow> log_allocation" where
  "daemon_cb n prev =
     n\<lparr>lsn_offset := next_lsn_offset prev, next_lsn_offset := next_lsn_offset prev\<rparr>"

definition daemon_sleep :: "alloc_mgr \<Rightarrow> alloc_mgr" where
  "daemon_sleep s =
     emit Wait_write_daemon_cond
       (s\<lparr>write_daemon_wait_count := write_daemon_wait_count s + 1, pc := D_asleep\<rparr>)"

text \<open>
  The block guarded by \<^verbatim>\<open>_durable_lsn_offset == cur_offset and _write_daemon_should_stop\<close>.
  The callback stores the frontier it saw into \<open>cur_offset\<close>. The result has
  \<open>pc = D_exited\<close> when the daemon returned, \<open>D_died\<close> when a \<^verbatim>\<open>DIE_IF\<close> fired, and
  the old \<open>pc\<close> when control falls out of the block. The block is part of the step
  \<open>daemon_check\<close>, so no producer pushes between the daemon's \<^verbatim>\<open>push_callback\<close> and
  its \<^verbatim>\<open>remove_and_kill\<close>: in the runs of this model \<^verbatim>\<open>remove_and_kill\<close> finds the
  daemon's node at the head of the list.
\<close>

definition daemon_try_exit :: "u64 \<Rightarrow> alloc_mgr \<Rightarrow> alloc_mgr" where
  "daemon_try_exit dmark_offset s =
     (let s1 = (if dmark_offset < durable_lsn_offset s then update_dmark s else s);
          (x, s2) = (case push_callback daemon_cb s1 of
                       None \<Rightarrow> (next_addr s1, s1)
                     | Some (n, s') \<Rightarrow> (addr n, s'\<lparr>cur_offset := next_lsn_offset n\<rparr>))
      in if oldest_offset s2 = cur_offset s2
         then (case remove_and_kill x s2 of
                 (True, s3) \<Rightarrow>
                   if durable_lsn_offset s3 < waiting_for_durable s3 then s3\<lparr>pc := D_died\<rparr>
                   else if durable_lsn_offset s3 < waiting_for_dmark s3 then s3\<lparr>pc := D_died\<rparr>
                   else emit Close_fd (s3\<lparr>pc := D_exited\<rparr>)
               | (False, s3) \<Rightarrow> s3)
         else remove_fast x s2)"

text \<open>After the scan: nothing to write (the idle path, under the mutex), or on to the flush.\<close>

definition daemon_check :: "alloc_mgr \<Rightarrow> alloc_mgr" where
  "daemon_check s =
     (if oldest_offset s = durable_lsn_offset s
      then (let dmark_offset = offset (durable_mark s)
            in if dmark_offset < waiting_for_dmark s
                    \<and> waiting_for_dmark s \<le> durable_lsn_offset s
               then s\<lparr>pc := D_top\<rparr>
               else (let s1 = emit Broadcast_write_complete_cond s
                     in if durable_lsn_offset s1 = cur_offset s1 \<and> write_daemon_should_stop s1
                        then (let s2 = daemon_try_exit dmark_offset s1
                              in if pc s2 = D_exited \<or> pc s2 = D_died then s2
                                 else daemon_sleep s2)
                        else daemon_sleep s1))
      else s\<lparr>pc := D_flushing\<rparr>)"

text \<open>
  Whether the next write has to cross into the next segment (the red zone test).
\<close>

definition crossing :: "params \<Rightarrow> alloc_mgr \<Rightarrow> bool" where
  "crossing ps s = (end_offset (durable_sid s) < oldest_offset s + MIN_LOG_BLOCK_SIZE ps)"

text \<open>
  One round of the flush loop. \<open>get_segment\<close> is the segment manager's table when the
  daemon asks it, \<open>n\<close> the number of bytes \<^verbatim>\<open>os_pwrite\<close> reports. A null segment is
  dereferenced and a short write throws: both end the daemon, \<open>pc = D_died\<close>. The
  source compares the pointers \<^verbatim>\<open>new_sid\<close> and \<^verbatim>\<open>durable_sid\<close> to see whether the
  segment changed; descriptors are values here and the test compares their fields, which
  differs only in the events \<open>Close_fd\<close> and \<open>Open_for_write\<close> of the trace, and only
  when the segment manager hands out a second descriptor with the same fields.
\<close>

definition daemon_flush ::
  "params \<Rightarrow> (u32 \<Rightarrow> segment_id option) \<Rightarrow> u64 \<Rightarrow> alloc_mgr \<Rightarrow> alloc_mgr" where
  "daemon_flush ps get_segment n s =
     (if durable_lsn_offset s < oldest_offset s
      then (case (if crossing ps s
                  then map_option (\<lambda>new_sid. (new_sid, start_offset new_sid, byte_offset new_sid))
                         (get_segment ((segnum (durable_sid s) + 1) mod NUM_LOG_SEGMENTS ps))
                  else Some (durable_sid s, oldest_offset s,
                             buf_offset ps (durable_sid s) (oldest_offset s))) of
              None \<Rightarrow> s\<lparr>pc := D_died\<rparr>
            | Some (new_sid, new_offset, new_byte) \<Rightarrow>
                let s1 = emit (Advance_writer new_byte) s;
                    nbytes = new_byte - durable_byte s1;
                    s2 = emit (Read_buf (durable_byte s1) nbytes) s1;
                    s3 = emit (Pwrite (file_offset ps (durable_sid s2) (durable_lsn_offset s2)) nbytes) s2
                in if n < nbytes then s3\<lparr>pc := D_died\<rparr>
                   else (let s4 = emit (Advance_reader new_byte) s3;
                             s5 = (if new_sid \<noteq> durable_sid s4
                                   then emit (Open_for_write new_sid) (emit Close_fd s4)
                                   else s4);
                             s6 = (if durable_lsn_offset s5 < waiting_for_durable s5
                                   then emit Broadcast_write_complete_cond s5
                                   else s5)
                         in s6\<lparr>durable_sid := new_sid, durable_lsn_offset := new_offset,
                               durable_byte := new_byte\<rparr>))
      else s\<lparr>pc := D_top\<rparr>)"

subsection \<open>Steps of the threads\<close>

text \<open>
  The section of \<^verbatim>\<open>wait_for_durable\<close> (and of the buffer wait in \<^verbatim>\<open>allocate\<close>) under
  the mutex: raise the mark, kick, wait. The same for \<^verbatim>\<open>update_durable_mark\<close>.
\<close>

definition wait_durable_section :: "u64 \<Rightarrow> alloc_mgr \<Rightarrow> alloc_mgr" where
  "wait_durable_section target s =
     emit Wait_write_complete_cond
       (kick_log_write_daemon
          (if waiting_for_durable s < target then s\<lparr>waiting_for_durable := target\<rparr> else s))"

definition wait_dmark_section :: "u64 \<Rightarrow> alloc_mgr \<Rightarrow> alloc_mgr" where
  "wait_dmark_section target s =
     emit Wait_write_complete_cond
       (kick_log_write_daemon
          (if waiting_for_dmark s < target then s\<lparr>waiting_for_dmark := target\<rparr> else s))"

text \<open>The callback of \<^verbatim>\<open>allocate\<close>: the new node follows its predecessor.\<close>

definition allocate_cb :: "u64 \<Rightarrow> log_allocation \<Rightarrow> log_allocation \<Rightarrow> log_allocation" where
  "allocate_cb nbytes n prev =
     (let off = next_lsn_offset prev;
          n1 = n\<lparr>lsn_offset := off\<rparr>
      in n1\<lparr>next_lsn_offset := off + nbytes\<rparr>)"

text \<open>
  The atomic steps. The first seven are taken by producers and by the destructor, the
  rest by the daemon, each only where the daemon stands at that point of its loop. A step
  that cannot be taken leaves the state as it is.
\<close>

datatype action =
    Push u64
  | Remove_fast nat
  | Store_block nat log_block
  | Kick
  | Wait_durable u64
  | Wait_dmark u64
  | Shutdown
  | Daemon_refresh u64
  | Daemon_scan
  | Daemon_check
  | Daemon_flush "u32 \<Rightarrow> segment_id option" u64
  | Daemon_wake

fun exec :: "params \<Rightarrow> action \<Rightarrow> alloc_mgr \<Rightarrow> alloc_mgr" where
  "exec ps (Push nbytes) s =
     (case push_callback (allocate_cb nbytes) s of None \<Rightarrow> s | Some (x, s') \<Rightarrow> s')"
| "exec ps (Remove_fast x) s = remove_fast x s"
| "exec ps (Store_block x b) s = s\<lparr>blocks := (blocks s)(x := Some b)\<rparr>"
| "exec ps Kick s = kick_log_write_daemon s"
| "exec ps (Wait_durable target) s = wait_durable_section target s"
| "exec ps (Wait_dmark target) s = wait_dmark_section target s"
| "exec ps Shutdown s = kick_log_write_daemon (s\<lparr>write_daemon_should_stop := True\<rparr>)"
| "exec ps (Daemon_refresh time_ns) s =
     (if pc s = D_top then (daemon_refresh time_ns s)\<lparr>pc := D_refreshed\<rparr> else s)"
| "exec ps Daemon_scan s = (if pc s = D_refreshed then daemon_scan s else s)"
| "exec ps Daemon_check s = (if pc s = D_scanned then daemon_check s else s)"
| "exec ps (Daemon_flush get_segment n) s =
     (if pc s = D_flushing then daemon_flush ps get_segment n s else s)"
| "exec ps Daemon_wake s = (if pc s = D_asleep then s\<lparr>pc := D_top\<rparr> else s)"

definition run :: "params \<Rightarrow> action list \<Rightarrow> alloc_mgr \<Rightarrow> alloc_mgr" where
  "run ps as s = foldl (\<lambda>s a. exec ps a s) s as"

text \<open>
  The constructor, and the daemon up to the head of its loop: the list is primed with
  one dead node at the durable mark, the counters are zero, and the daemon has opened
  the segment \<open>sid0\<close> that \<^verbatim>\<open>_lm.get_segment(dlsn.segment())\<close> returned.
\<close>

definition init :: "params \<Rightarrow> LSN \<Rightarrow> segment_id \<Rightarrow> alloc_mgr" where
  "init ps dlsn sid0 =
     \<lparr>block_list = [\<lparr>addr = 0, lsn_offset = offset dlsn, next_lsn_offset = offset dlsn,
                      dead = True\<rparr>],
      list_killed = False,
      next_addr = 1,
      blocks = (\<lambda>_. None),
      durable_lsn_offset = offset dlsn,
      waiting_for_durable = 0,
      waiting_for_dmark = 0,
      write_daemon_wait_count = 0,
      write_daemon_kick_count = 0,
      write_daemon_should_stop = False,
      durable_mark = dlsn,
      durable_sid = sid0,
      durable_byte = buf_offset ps sid0 (offset dlsn),
      cur_offset = 0,
      oldest_offset = 0,
      pc = D_top,
      trace = [Open_for_write sid0]\<rparr>"

subsection \<open>Waiting for the durable watermark\<close>

text \<open>
  \<^verbatim>\<open>wait_for_durable\<close>. While the caller runs, other threads take steps: each entry
  of the schedule gives the steps taken between the caller's check and its section under
  the mutex, and the steps taken while the caller waits on the condition variable (a
  wait may end at any time); \<open>wait_round\<close> is one pass through the loop body. The
  result of \<open>wait_for_durable\<close> is the state in which the check let the caller out
  and the number of times the caller went through the loop; \<open>None\<close> when the schedule
  ends with the caller still inside the loop.
\<close>

definition wait_round :: "params \<Rightarrow> u64 \<Rightarrow> action list \<times> action list \<Rightarrow> alloc_mgr \<Rightarrow> alloc_mgr" where
  "wait_round ps dlsn_offset e s =
     run ps (snd e) (wait_durable_section dlsn_offset (run ps (fst e) s))"

fun wait_for_durable ::
  "params \<Rightarrow> u64 \<Rightarrow> (action list \<times> action list) list \<Rightarrow> alloc_mgr
     \<Rightarrow> (alloc_mgr \<times> nat) option" where
  "wait_for_durable ps dlsn_offset [] s =
     (if dur_lsn_offset s < dlsn_offset then None else Some (s, 0))"
| "wait_for_durable ps dlsn_offset (e # sched) s =
     (if dur_lsn_offset s < dlsn_offset
      then map_option (\<lambda>(s', k). (s', Suc k))
             (wait_for_durable ps dlsn_offset sched (wait_round ps dlsn_offset e s))
      else Some (s, 0))"

text \<open>The state at the caller's check after it went through the loop for each entry.\<close>

definition wait_rounds ::
  "params \<Rightarrow> u64 \<Rightarrow> (action list \<times> action list) list \<Rightarrow> alloc_mgr \<Rightarrow> alloc_mgr" where
  "wait_rounds ps dlsn_offset sched s = foldl (\<lambda>s e. wait_round ps dlsn_offset e s) s sched"

subsection \<open>Allocation\<close>

text \<open>What \<^verbatim>\<open>_lm.assign_segment\<close> returns.\<close>

record segment_assignment =
  sid :: "segment_id option"
  full_size :: bool
  next_lsn :: LSN

datatype 'a callee = Returns 'a | Throws

text \<open>
  What one pass of \<^verbatim>\<open>allocate\<close> (from \<^verbatim>\<open>start_over\<close> on) meets: the steps other
  threads take before its push, the answer of \<^verbatim>\<open>assign_segment\<close>, for every
  \<^verbatim>\<open>write_buf\<close> that returns null the steps others take before the caller's section
  under the mutex and while it waits, and the buffer memory that \<^verbatim>\<open>write_buf\<close>
  returns at last (\<open>None\<close>: it returns none while this script lasts).
\<close>

record attempt_script =
  before_push :: "action list"
  assign_segment :: "segment_assignment callee"
  buffer_waits :: "(action list \<times> action list) list"
  buffer :: "log_block option"

text \<open>The loop at \<^verbatim>\<open>grab_buffer\<close> for the calls of \<^verbatim>\<open>write_buf\<close> that return null.\<close>

fun grab_buffer ::
  "params \<Rightarrow> u64 \<Rightarrow> u64 \<Rightarrow> u64 \<Rightarrow> (action list \<times> action list) list \<Rightarrow> alloc_mgr
     \<Rightarrow> alloc_mgr" where
  "grab_buffer ps at tmp_nbytes needed [] s = s"
| "grab_buffer ps at tmp_nbytes needed (e # ws) s =
     grab_buffer ps at tmp_nbytes needed ws
       (wait_round ps needed e (emit (Write_buf at tmp_nbytes False) s))"

text \<open>The header and the trailing skip record, written into the buffer memory.\<close>

definition populate :: "LSN \<Rightarrow> u32 \<Rightarrow> LSN \<Rightarrow> u64 \<Rightarrow> log_block \<Rightarrow> log_block" where
  "populate l tmp_nrec nxt tmp_payload_bytes buf =
     (let b = buf\<lparr>lsn := l\<rparr>;
          b1 = b\<lparr>nrec := tmp_nrec\<rparr>
      in b1\<lparr>records := (records b1)
              (unat tmp_nrec :=
                 fill_skip_record (records b1 (unat tmp_nrec)) nxt tmp_payload_bytes False)\<rparr>)"

text \<open>Step 1 of \<^verbatim>\<open>allocate\<close>: join the block list to obtain an LSN offset range.\<close>

definition obtain_lsn_range ::
  "params \<Rightarrow> u32 \<Rightarrow> u64 \<Rightarrow> alloc_mgr \<Rightarrow> (log_allocation \<times> alloc_mgr) option" where
  "obtain_lsn_range ps nrec_arg payload_bytes s =
     (let nbytes = block_size ps nrec_arg payload_bytes
      in push_callback (allocate_cb nbytes) s)"

datatype attempt_result =
    Attempt_died
  | Attempt_start_over alloc_mgr
  | Attempt_returned log_allocation alloc_mgr
  | Attempt_waiting

text \<open>
  One pass from \<^verbatim>\<open>start_over\<close>. The two deferred actions: a jump back to
  \<^verbatim>\<open>start_over\<close> leaves their scope, so \<^verbatim>\<open>remove_fast\<close> runs there unless
  \<^verbatim>\<open>node_used\<close> is set; an exception of \<^verbatim>\<open>assign_segment\<close> leaves it with
  \<^verbatim>\<open>normal_return\<close> unset, which is \<^verbatim>\<open>DIE\<close>.
\<close>

definition allocate_attempt ::
  "params \<Rightarrow> attempt_script \<Rightarrow> u32 \<Rightarrow> u64 \<Rightarrow> alloc_mgr \<Rightarrow> attempt_result" where
  "allocate_attempt ps sc nrec_arg payload_bytes s0 =
     (let nbytes = block_size ps nrec_arg payload_bytes
      in case obtain_lsn_range ps nrec_arg payload_bytes (run ps (before_push sc) s0) of
           None \<Rightarrow> Attempt_died
         | Some (x, s1) \<Rightarrow>
             (case assign_segment sc of
                Throws \<Rightarrow> Attempt_died
              | Returns rval \<Rightarrow>
                  (case sid rval of
                     None \<Rightarrow> Attempt_start_over (remove_fast (addr x) s1)
                   | Some sd \<Rightarrow>
                       let l = make_lsn sd (lsn_offset x);
                           tmp_nbytes = (if full_size rval then nbytes
                                         else end_offset sd - lsn_offset x);
                           tmp_nrec = (if full_size rval then nrec_arg else 0);
                           tmp_payload_bytes = (if full_size rval then payload_bytes else 0);
                           at = buf_offset ps sd (offset l);
                           s2 = grab_buffer ps at tmp_nbytes (offset l - window_size ps)
                                  (buffer_waits sc) s1
                       in case buffer sc of
                            None \<Rightarrow> Attempt_waiting
                          | Some buf \<Rightarrow>
                              let s3 = emit (Write_buf at tmp_nbytes True) s2;
                                  b = populate l tmp_nrec (next_lsn rval) tmp_payload_bytes buf;
                                  s4 = s3\<lparr>blocks := (blocks s3)(addr x := Some b)\<rparr>
                              in if full_size rval then Attempt_returned x s4
                                 else (case discard ps (addr x) s4 of
                                         None \<Rightarrow> Attempt_died
                                       | Some s5 \<Rightarrow> Attempt_start_over s5))))"

datatype allocate_result = Process_terminated | Returned log_allocation alloc_mgr

text \<open>
  \<^verbatim>\<open>allocate\<close>: passes until one returns. \<open>None\<close> when the scripts end with the call
  still under way (waiting for buffer space, or about to start over).
\<close>

fun allocate ::
  "params \<Rightarrow> attempt_script list \<Rightarrow> u32 \<Rightarrow> u64 \<Rightarrow> alloc_mgr \<Rightarrow> allocate_result option" where
  "allocate ps [] nrec_arg payload_bytes s = None"
| "allocate ps (sc # scs) nrec_arg payload_bytes s =
     (case allocate_attempt ps sc nrec_arg payload_bytes s of
        Attempt_died \<Rightarrow> Some Process_terminated
      | Attempt_start_over s' \<Rightarrow> allocate ps scs nrec_arg payload_bytes s'
      | Attempt_returned x s' \<Rightarrow> Some (Returned x s')
      | Attempt_waiting \<Rightarrow> None)"

subsection \<open>Looking at a state\<close>

text \<open>The allocation a pointer refers to, while it is linked in the block list.\<close>

definition allocation_at :: "nat \<Rightarrow> alloc_mgr \<Rightarrow> log_allocation option" where
  "allocation_at x s = find (\<lambda>n. addr n = x) (block_list s)"

text \<open>
  The segment a step of the daemon crosses into, if the step is a round of the flush
  loop that takes the red zone branch.
\<close>

fun crossing_target :: "params \<Rightarrow> action \<Rightarrow> alloc_mgr \<Rightarrow> segment_id option" where
  "crossing_target ps (Daemon_flush get_segment n) s =
     (if pc s = D_flushing \<and> durable_lsn_offset s < oldest_offset s \<and> crossing ps s
      then get_segment ((segnum (durable_sid s) + 1) mod NUM_LOG_SEGMENTS ps)
      else None)"
| "crossing_target ps a s = None"

text \<open>
  Two conditions on what the segment manager and the producers do along a sequence of
  steps. \<open>advancing\<close>: every segment the daemon crosses into starts at or after the
  durable watermark of that moment. \<open>bounded\<close>: it starts at or before the allocation
  frontier of that moment, and no push wraps the 64-bit offset around.
\<close>

fun advancing :: "params \<Rightarrow> action list \<Rightarrow> alloc_mgr \<Rightarrow> bool" where
  "advancing ps [] s = True"
| "advancing ps (a # as) s =
     ((case crossing_target ps a s of
         None \<Rightarrow> True
       | Some new_sid \<Rightarrow> durable_lsn_offset s \<le> start_offset new_sid)
      \<and> advancing ps as (exec ps a s))"

fun no_wrap :: "action \<Rightarrow> alloc_mgr \<Rightarrow> bool" where
  "no_wrap (Push nbytes) s =
     (case peek_raw0 s of
        None \<Rightarrow> True
      | Some prev \<Rightarrow> next_lsn_offset prev \<le> next_lsn_offset prev + nbytes)"
| "no_wrap a s = True"

fun bounded :: "params \<Rightarrow> action list \<Rightarrow> alloc_mgr \<Rightarrow> bool" where
  "bounded ps [] s = True"
| "bounded ps (a # as) s =
     (no_wrap a s
      \<and> (case crossing_target ps a s of
            None \<Rightarrow> True
          | Some new_sid \<Rightarrow>
              (case cur_lsn_offset s of
                 None \<Rightarrow> False
               | Some c \<Rightarrow> start_offset new_sid \<le> c))
      \<and> bounded ps as (exec ps a s))"

subsection \<open>A small log to run the model on\<close>

definition ps0 :: params where
  "ps0 = \<lparr>MIN_LOG_BLOCK_SIZE = 64, NUM_LOG_SEGMENTS = 16,
          block_size = (\<lambda>n p. 32 + 16 * (ucast n + 1) + p),
          full_checksum = (\<lambda>b. nrec b + 7),
          buf_offset = (\<lambda>sd off. byte_offset sd + (off - start_offset sd)),
          file_offset = (\<lambda>sd off. off - start_offset sd),
          window_size = 4096\<rparr>"

definition seg0 :: segment_id where
  "seg0 = \<lparr>segnum = 0, start_offset = 0, end_offset = 1000, byte_offset = 0\<rparr>"

definition seg1 :: segment_id where
  "seg1 = \<lparr>segnum = 1, start_offset = 1300, end_offset = 2300, byte_offset = 1000\<rparr>"

definition s0 :: alloc_mgr where
  "s0 = init ps0 \<lparr>segment = 0, offset = 0\<rparr> seg0"

text \<open>
  One turn of an idle daemon that a producer kicks awake, and the states between such
  turns on the small log.
\<close>

definition kick_cycle :: "action list" where
  "kick_cycle = [Daemon_refresh 0, Daemon_scan, Daemon_check, Kick, Daemon_wake]"

definition idle_after :: "nat \<Rightarrow> alloc_mgr \<Rightarrow> bool" where
  "idle_after n s =
     (pc s = D_top \<and> block_list s = block_list s0 \<and> durable_lsn_offset s = 0
      \<and> offset (durable_mark s) = 0 \<and> waiting_for_dmark s = 0
      \<and> \<not> write_daemon_should_stop s
      \<and> write_daemon_wait_count s = of_nat n \<and> write_daemon_kick_count s = of_nat n)"

text \<open>How often the daemon goes to sleep along a sequence of steps.\<close>

fun sleeps :: "params \<Rightarrow> action list \<Rightarrow> alloc_mgr \<Rightarrow> nat" where
  "sleeps ps [] s = 0"
| "sleeps ps (a # as) s =
     (if pc (exec ps a s) = D_asleep \<and> pc s \<noteq> D_asleep then 1 else 0)
     + sleeps ps as (exec ps a s)"

text \<open>A block with two records and the skip record behind them.\<close>

definition blk0 :: log_block where
  "blk0 = \<lparr>lsn = \<lparr>segment = 0, offset = 0\<rparr>, nrec = 2, checksum = 0,
           records = (\<lambda>i. \<lparr>rtype = (if i = 2 then LOG_SKIP else LOG_OTHER i),
                            payload_end = 8 * of_nat i,
                            skip_next_lsn = \<lparr>segment = 0, offset = 128\<rparr>,
                            other_fields = i\<rparr>)\<rparr>"

text \<open>A producer has allocated 100 bytes and written \<open>blk0\<close> into them.\<close>

definition s_stored :: alloc_mgr where
  "s_stored = run ps0 [Push 100, Store_block 1 blk0] s0"

text \<open>
  What holds of the block list and of the daemon's scan in every state reached from the
  constructor's: the list is not empty, offsets descend from the newest node to the
  oldest and none is above the frontier (the \<open>next_lsn_offset\<close> of the newest node);
  the durable watermark is not above the frontier; after the scan, \<open>oldest_offset\<close> is
  below the frontier and below every live node; and the list is killed only when the
  daemon has ended.
\<close>

definition descending :: "log_allocation list \<Rightarrow> bool" where
  "descending ns = sorted_wrt (\<lambda>a b. lsn_offset b \<le> lsn_offset a) ns"

definition list_inv :: "log_allocation list \<Rightarrow> bool" where
  "list_inv ns =
     (ns \<noteq> [] \<and> (\<forall>n\<in>set ns. lsn_offset n \<le> next_lsn_offset (hd ns)) \<and> descending ns)"

definition scan_inv :: "alloc_mgr \<Rightarrow> bool" where
  "scan_inv s =
     (pc s = D_scanned \<or> pc s = D_flushing \<longrightarrow>
        oldest_offset s \<le> next_lsn_offset (hd (block_list s))
        \<and> (\<forall>n\<in>set (live (block_list s)). oldest_offset s \<le> lsn_offset n))"

definition alloc_inv :: "alloc_mgr \<Rightarrow> bool" where
  "alloc_inv s =
     (list_inv (block_list s)
      \<and> durable_lsn_offset s \<le> next_lsn_offset (hd (block_list s))
      \<and> scan_inv s
      \<and> (list_killed s \<longrightarrow> pc s = D_exited \<or> pc s = D_died))"

text \<open>
  Four allocations around the end of segment \<open>seg0\<close>: the first fits, the second
  straddles the end, the third falls between the segments, the fourth starts the next
  segment \<open>seg1\<close>. The first two are released and the daemon scans the list.
\<close>

definition crossing_run :: "action list" where
  "crossing_run = [Push 900, Push 200, Push 200, Push 200, Remove_fast 1, Remove_fast 2,
                   Daemon_refresh 0, Daemon_scan, Daemon_check]"

text \<open>
  The round of the flush loop that follows: the segment manager hands out \<open>seg1\<close> and
  the write is complete.
\<close>

definition crossing_flush :: action where
  "crossing_flush = Daemon_flush (\<lambda>_. Some seg1) 1000"

text \<open>The daemon finds 100 bytes to write and writes them.\<close>

definition flush_100 :: "action list" where
  "flush_100 = [Daemon_refresh 0, Daemon_scan, Daemon_check, Daemon_flush (\<lambda>_. None) 100]"

text \<open>
  A thread waits for offset 100 while a producer allocates and releases 100 bytes and
  the daemon writes them.
\<close>

definition s_waited :: alloc_mgr where
  "s_waited = run ps0 ([Push 100, Remove_fast 1, Wait_durable 100] @ flush_100) s0"

text \<open>
  What may follow: the daemon leaves the flush loop, a producer allocates and releases
  the 900 bytes up to the end of \<open>seg0\<close>, and the daemon scans the list. In its next
  round of the flush loop the daemon is in the red zone and asks the segment manager
  for segment 1; \<open>flush_into sd\<close> is that round when the answer is \<open>sd\<close> and the
  900 bytes are written. \<open>seg_back\<close> is a descriptor that starts below the durable
  watermark.
\<close>

definition fill_seg0 :: "action list" where
  "fill_seg0 = [Daemon_flush (\<lambda>_. None) 0, Push 900, Remove_fast 2,
                Daemon_refresh 0, Daemon_scan, Daemon_check]"

definition flush_into :: "segment_id \<Rightarrow> action" where
  "flush_into sd = Daemon_flush (\<lambda>_. Some sd) 900"

definition seg_back :: segment_id where
  "seg_back = \<lparr>segnum = 1, start_offset = 50, end_offset = 1050, byte_offset = 1000\<rparr>"

text \<open>
  Three passes of \<^verbatim>\<open>allocate(1, 64)\<close> on the small log. In the first, another thread
  has taken 900 bytes, the request straddles the end of \<open>seg0\<close>, and \<^verbatim>\<open>write_buf\<close>
  returns null once before it returns memory. In the second the range lies between the
  segments. In the third, another thread has taken the rest up to the start of \<open>seg1\<close>
  and the request fits.
\<close>

definition script_straddle :: attempt_script where
  "script_straddle =
     \<lparr>before_push = [Push 900],
      assign_segment = Returns \<lparr>sid = Some seg0, full_size = False,
                                next_lsn = \<lparr>segment = 1, offset = 1300\<rparr>\<rparr>,
      buffer_waits = [([], [])],
      buffer = Some blk0\<rparr>"

definition script_dead_zone :: attempt_script where
  "script_dead_zone =
     \<lparr>before_push = [],
      assign_segment = Returns \<lparr>sid = None, full_size = False,
                                next_lsn = \<lparr>segment = 0, offset = 0\<rparr>\<rparr>,
      buffer_waits = [],
      buffer = None\<rparr>"

definition script_fit :: attempt_script where
  "script_fit =
     \<lparr>before_push = [Push 144],
      assign_segment = Returns \<lparr>sid = Some seg1, full_size = True,
                                next_lsn = \<lparr>segment = 1, offset = 1428\<rparr>\<rparr>,
      buffer_waits = [],
      buffer = Some blk0\<rparr>"

text \<open>
  The pass that ends a call of \<^verbatim>\<open>allocate\<close> and the state it starts in.
\<close>

fun last_attempt ::
  "params \<Rightarrow> attempt_script list \<Rightarrow> u32 \<Rightarrow> u64 \<Rightarrow> alloc_mgr
     \<Rightarrow> (attempt_script \<times> alloc_mgr) option" where
  "last_attempt ps [] nrec_arg payload_bytes s = None"
| "last_attempt ps (sc # scs) nrec_arg payload_bytes s =
     (case allocate_attempt ps sc nrec_arg payload_bytes s of
        Attempt_start_over s' \<Rightarrow> last_attempt ps scs nrec_arg payload_bytes s'
      | Attempt_waiting \<Rightarrow> None
      | _ \<Rightarrow> Some (sc, s))"

section \<open>Properties\<close>

subsection \<open>Evaluation and 64-bit arithmetic\<close>

lemmas step_defs = run_def push_callback_def peek_raw0_def allocate_cb_def remove_fast_def
  daemon_refresh_def daemon_scan_def daemon_check_def daemon_flush_def daemon_try_exit_def
  daemon_sleep_def daemon_cb_def crossing_def cur_lsn_offset_def dur_lsn_offset_def live_def
  emit_def remove_and_kill_def update_dmark_def make_lsn_def DURABLE_MARK_TIMEOUT_NS_def
  kick_log_write_daemon_def wait_durable_section_def wait_dmark_section_def
  obtain_lsn_range_def Let_def

lemmas example_defs = s0_def init_def ps0_def seg0_def seg1_def

lemma unat_max64: "unat (- 1 :: 64 word) = 2 ^ 64 - 1"
  by (simp add: unsigned_minus_1_eq_mask mask_eq_exp_minus_1)

lemma unat_inc64: "unat (w + 1 :: 64 word) \<le> unat w + 1"
  by (simp add: unat_word_ariths)

lemma of_nat_inc64: "n < 2 ^ 64 - 1 \<Longrightarrow> (of_nat n :: 64 word) < of_nat n + 1"
proof -
  assume n: "n < 2 ^ 64 - 1"
  then have "unat (of_nat n :: 64 word) = n" by (simp add: unat_of_nat)
  with n have "(of_nat n :: 64 word) \<noteq> - 1" using unat_max64 by auto
  then show ?thesis using inc_less_eq_self_iff_eq [of "of_nat n :: 64 word"] by auto
qed

lemma run_Nil [simp]: "run ps [] s = s"
  by (simp add: run_def)

lemma run_Cons [simp]: "run ps (a # as) s = run ps as (exec ps a s)"
  by (simp add: run_def)

lemma run_append: "run ps (as @ bs) s = run ps bs (run ps as s)"
  by (simp add: run_def)

lemma concat_replicate_snoc: "concat (replicate (Suc n) xs) = concat (replicate n xs) @ xs"
  by (induction n) simp_all

subsection \<open>Discarding a block\<close>

lemma discard_block_props:
  "records (discard_block ps b) 0 = (records b (unat (nrec b)))\<lparr>payload_end := 0\<rparr>"
  "nrec (discard_block ps b) = 0"
  "checksum (discard_block ps b)
     = full_checksum ps ((discard_block ps b)\<lparr>checksum := checksum b\<rparr>)"
  "lsn (discard_block ps b) = lsn b"
  "i \<noteq> 0 \<Longrightarrow> records (discard_block ps b) i = records b i"
  by (simp_all add: discard_block_def Let_def)

lemma blocks_release [simp]: "blocks (release x s) = blocks s"
  by (simp add: release_def remove_fast_def kick_log_write_daemon_def emit_def Let_def)

lemma block_list_release: "block_list (release x s) = remove_fast_list x (block_list s)"
  by (simp add: release_def remove_fast_def kick_log_write_daemon_def emit_def Let_def)

lemma find_remove_fast_list:
  "find (\<lambda>n. addr n = x) (remove_fast_list x ns)
     = map_option (\<lambda>n. n\<lparr>dead := True\<rparr>) (find (\<lambda>n. addr n = x) ns)"
  by (induction ns) auto

text \<open>
  Claim C6. For every allocation \<open>x\<close> whose block holds a skip record in slot
  \<open>nrec\<close>, \<open>discard x\<close> rewrites the block so that slot 0 is a copy of the old slot
  \<open>nrec\<close> with \<open>payload_end\<close> set to 0, \<open>nrec\<close> is 0 and \<open>checksum\<close> is the full
  checksum computed over the block as rewritten so far; then it calls \<open>release x\<close>.
\<close>

theorem discard_rewrites_block:
  assumes "blocks s x = Some b" and "rtype (records b (unat (nrec b))) = LOG_SKIP"
  shows "discard ps x s
           = Some (release x (s\<lparr>blocks := (blocks s)(x := Some (discard_block ps b))\<rparr>))
       \<and> records (discard_block ps b) 0 = (records b (unat (nrec b)))\<lparr>payload_end := 0\<rparr>
       \<and> rtype (records (discard_block ps b) 0) = LOG_SKIP
       \<and> nrec (discard_block ps b) = 0
       \<and> checksum (discard_block ps b)
           = full_checksum ps ((discard_block ps b)\<lparr>checksum := checksum b\<rparr>)"
  using assms by (simp add: discard_def discard_block_props)

theorem discard_rewrites_block_witness:
  "blocks s_stored 1 = Some blk0
   \<and> rtype (records blk0 (unat (nrec blk0))) = LOG_SKIP
   \<and> discard ps0 1 s_stored
       = Some (release 1 (s_stored\<lparr>blocks := (blocks s_stored)
                                             (1 := Some (discard_block ps0 blk0))\<rparr>))
   \<and> records (discard_block ps0 blk0) 0 = (records blk0 2)\<lparr>payload_end := 0\<rparr>
   \<and> rtype (records (discard_block ps0 blk0) 0) = LOG_SKIP
   \<and> nrec (discard_block ps0 blk0) = 0
   \<and> checksum (discard_block ps0 blk0) = 7"
proof -
  have h1: "blocks s_stored 1 = Some blk0"
    by (simp add: s_stored_def step_defs example_defs)
  have h2: "rtype (records blk0 (unat (nrec blk0))) = LOG_SKIP"
    by (simp add: blk0_def)
  have n: "unat (nrec blk0) = 2" by (simp add: blk0_def)
  have c: "full_checksum ps0 ((discard_block ps0 blk0)\<lparr>checksum := checksum blk0\<rparr>) = 7"
    by (simp add: ps0_def discard_block_props)
  from discard_rewrites_block [OF h1 h2, of ps0] h1 h2 n c show ?thesis by simp
qed

text \<open>
  Claim C10. \<open>discard x\<close> changes, in the block of \<open>x\<close>, only record slot 0, \<open>nrec\<close>
  and \<open>checksum\<close>: the header's \<open>lsn\<close> and every other slot stay as they were, no
  other block is touched, and the allocation keeps its \<open>lsn_offset\<close> and
  \<open>next_lsn_offset\<close>.
\<close>

theorem discard_frame:
  assumes "blocks s x = Some b" and "discard ps x s = Some s'"
  shows "\<exists>b'. blocks s' x = Some b'
           \<and> lsn b' = lsn b
           \<and> (\<forall>i. i \<noteq> 0 \<longrightarrow> records b' i = records b i)
           \<and> (\<forall>y. y \<noteq> x \<longrightarrow> blocks s' y = blocks s y)
           \<and> map_option lsn_offset (allocation_at x s')
               = map_option lsn_offset (allocation_at x s)
           \<and> map_option next_lsn_offset (allocation_at x s')
               = map_option next_lsn_offset (allocation_at x s)"
  using assms
  by (auto simp: discard_def discard_block_props allocation_at_def block_list_release
        find_remove_fast_list option.map_comp comp_def)

theorem discard_frame_witness:
  "blocks s_stored 1 = Some blk0
   \<and> (\<exists>s'. discard ps0 1 s_stored = Some s'
          \<and> (\<exists>b'. blocks s' 1 = Some b'
                 \<and> lsn b' = \<lparr>segment = 0, offset = 0\<rparr>
                 \<and> records b' 1 = records blk0 1
                 \<and> records b' 2 = records blk0 2)
          \<and> map_option lsn_offset (allocation_at 1 s') = Some 0
          \<and> map_option next_lsn_offset (allocation_at 1 s') = Some 100)"
proof -
  let ?s' = "release 1 (s_stored\<lparr>blocks := (blocks s_stored)
                                        (1 := Some (discard_block ps0 blk0))\<rparr>)"
  have h1: "blocks s_stored 1 = Some blk0"
    by (simp add: s_stored_def step_defs example_defs)
  have h2: "discard ps0 1 s_stored = Some ?s'"
    using h1 by (simp add: discard_def)
  have a: "map_option lsn_offset (allocation_at 1 s_stored) = Some 0"
    by (simp add: allocation_at_def s_stored_def step_defs example_defs)
  have b: "map_option next_lsn_offset (allocation_at 1 s_stored) = Some 100"
    by (simp add: allocation_at_def s_stored_def step_defs example_defs)
  have c: "lsn blk0 = \<lparr>segment = 0, offset = 0\<rparr>"
    by (simp add: blk0_def)
  from discard_frame [OF h1 h2] a b c
  have "(\<exists>b'. blocks ?s' 1 = Some b'
                 \<and> lsn b' = \<lparr>segment = 0, offset = 0\<rparr>
                 \<and> records b' 1 = records blk0 1
                 \<and> records b' 2 = records blk0 2)
          \<and> map_option lsn_offset (allocation_at 1 ?s') = Some 0
          \<and> map_option next_lsn_offset (allocation_at 1 ?s') = Some 100"
    by auto
  with h1 h2 show ?thesis by blast
qed

text \<open>
  Claim C3. The push of \<^verbatim>\<open>allocate(nrec, payload_bytes)\<close> puts the new node in front of
  its predecessor with \<open>lsn_offset\<close> equal to the predecessor's \<open>next_lsn_offset\<close> and
  \<open>next_lsn_offset\<close> equal to \<open>lsn_offset + log_block::size(nrec, payload_bytes)\<close>
  (in 64-bit arithmetic); the node becomes the frontier, so the push of the next
  allocation starts where this one ends.
\<close>

theorem allocate_range_contiguous:
  assumes "obtain_lsn_range ps nrec_arg payload_bytes s = Some (x, s1)"
  shows "\<exists>prev. peek_raw0 s = Some prev
           \<and> block_list s1 = x # block_list s
           \<and> lsn_offset x = next_lsn_offset prev
           \<and> next_lsn_offset x = lsn_offset x + block_size ps nrec_arg payload_bytes
           \<and> cur_lsn_offset s1 = Some (next_lsn_offset x)
           \<and> (\<forall>nrec2 payload2 y s2.
                 obtain_lsn_range ps nrec2 payload2 s1 = Some (y, s2)
                 \<longrightarrow> lsn_offset y = next_lsn_offset x)"
  using assms
  by (auto simp: obtain_lsn_range_def push_callback_def peek_raw0_def allocate_cb_def
        cur_lsn_offset_def Let_def split: if_splits list.splits)

theorem allocate_range_contiguous_witness:
  "obtain_lsn_range ps0 1 64 s0
     = Some (\<lparr>addr = 1, lsn_offset = 0, next_lsn_offset = 128, dead = False\<rparr>,
             s0\<lparr>block_list := \<lparr>addr = 1, lsn_offset = 0, next_lsn_offset = 128, dead = False\<rparr>
                                # block_list s0,
                next_addr := 2\<rparr>)
   \<and> (\<exists>prev. peek_raw0 s0 = Some prev
          \<and> (0 :: u64) = next_lsn_offset prev
          \<and> (128 :: u64) = 0 + block_size ps0 1 64)
   \<and> cur_lsn_offset (s0\<lparr>block_list := \<lparr>addr = 1, lsn_offset = 0, next_lsn_offset = 128,
                                          dead = False\<rparr> # block_list s0,
                          next_addr := 2\<rparr>) = Some 128"
proof -
  let ?x = "\<lparr>addr = 1, lsn_offset = 0, next_lsn_offset = 128, dead = False\<rparr>"
  have h: "obtain_lsn_range ps0 1 64 s0
             = Some (?x, s0\<lparr>block_list := ?x # block_list s0, next_addr := 2\<rparr>)"
    by (simp add: step_defs example_defs)
  from allocate_range_contiguous [OF h] h show ?thesis by auto
qed

subsection \<open>The timed refresh of the durable mark\<close>

text \<open>
  Claim C7, as the code has it. When the timed refresh advances the durable mark on disk
  (the mark trails \<open>durable_lsn_offset\<close>, and a thread waits for a durable-mark advance
  or the timeout has passed), the update is followed by a reset of the timer, and by a
  broadcast of \<^verbatim>\<open>_write_complete_cond\<close> exactly when a thread waits for a durable-mark
  advance. An advance made on the timeout alone is not followed by a broadcast.
\<close>

theorem daemon_refresh_trace:
  "trace (daemon_refresh time_ns s) =
     (if offset (durable_mark s) < durable_lsn_offset s
         \<and> (offset (durable_mark s) < waiting_for_dmark s \<or> DURABLE_MARK_TIMEOUT_NS < time_ns)
      then (if offset (durable_mark s) < waiting_for_dmark s
            then [Broadcast_write_complete_cond] else [])
           @ [Timer_reset, Update_durable_mark (make_lsn (durable_sid s) (durable_lsn_offset s))]
           @ trace s
      else trace s)"
  by (simp add: daemon_refresh_def update_dmark_def emit_def Let_def)

text \<open>
  Claim C7 as stated fails. One producer allocates 100 bytes and releases them, the
  daemon writes them out and, more than 100 ms later, comes back to the head of its loop:
  it updates the durable mark on disk and broadcasts nothing.
\<close>

theorem daemon_refresh_timeout_no_broadcast:
  "trace (run ps0 [Push 100, Remove_fast 1, Daemon_refresh 0, Daemon_scan, Daemon_check,
                   Daemon_flush (\<lambda>_. None) 100, Daemon_flush (\<lambda>_. None) 0,
                   Daemon_refresh 100000001] s0)
     = [Timer_reset, Update_durable_mark \<lparr>segment = 0, offset = 100\<rparr>,
        Advance_reader 100, Pwrite 0 100, Read_buf 0 100, Advance_writer 100,
        Open_for_write seg0]"
  by (simp add: step_defs example_defs)

subsection \<open>Kicks and waits\<close>

lemma counts_try_exit:
  "write_daemon_wait_count (daemon_try_exit d s) = write_daemon_wait_count s"
  "write_daemon_kick_count (daemon_try_exit d s) = write_daemon_kick_count s"
  by (auto simp: daemon_try_exit_def push_callback_def remove_and_kill_def remove_fast_def
        update_dmark_def emit_def Let_def
      split: option.splits list.splits if_splits prod.splits)

lemma sleep_fields [simp]:
  "pc (daemon_sleep s) = D_asleep"
  "write_daemon_wait_count (daemon_sleep s) = write_daemon_wait_count s + 1"
  "write_daemon_kick_count (daemon_sleep s) = write_daemon_kick_count s"
  by (simp_all add: daemon_sleep_def emit_def)

lemma emit_fields [simp]:
  "pc (emit e s) = pc s"
  "write_daemon_wait_count (emit e s) = write_daemon_wait_count s"
  "write_daemon_kick_count (emit e s) = write_daemon_kick_count s"
  by (simp_all add: emit_def)

lemma daemon_check_kick: "write_daemon_kick_count (daemon_check s) = write_daemon_kick_count s"
  by (simp add: daemon_check_def Let_def counts_try_exit)

lemma daemon_check_wait:
  "write_daemon_wait_count (daemon_check s) =
     (if pc (daemon_check s) = D_asleep then write_daemon_wait_count s + 1
      else write_daemon_wait_count s)"
  by (simp add: daemon_check_def Let_def counts_try_exit)

lemma kick_fields:
  "pc (kick_log_write_daemon s) = pc s"
  "write_daemon_wait_count (kick_log_write_daemon s) = write_daemon_wait_count s"
  "write_daemon_kick_count (kick_log_write_daemon s) =
     (if write_daemon_kick_count s < write_daemon_wait_count s
      then write_daemon_kick_count s + 1 else write_daemon_kick_count s)"
  by (simp_all add: kick_log_write_daemon_def)

lemma flush_fields:
  "write_daemon_wait_count (daemon_flush ps g n s) = write_daemon_wait_count s"
  "write_daemon_kick_count (daemon_flush ps g n s) = write_daemon_kick_count s"
  "pc (daemon_flush ps g n s) \<noteq> D_asleep \<or> pc s = D_asleep"
  by (simp_all add: daemon_flush_def Let_def split: option.splits prod.splits)

lemma refresh_fields:
  "write_daemon_wait_count (daemon_refresh t s) = write_daemon_wait_count s"
  "write_daemon_kick_count (daemon_refresh t s) = write_daemon_kick_count s"
  "pc (daemon_refresh t s) = pc s"
  by (simp_all add: daemon_refresh_def update_dmark_def Let_def)

lemma scan_fields:
  "write_daemon_wait_count (daemon_scan s) = write_daemon_wait_count s"
  "write_daemon_kick_count (daemon_scan s) = write_daemon_kick_count s"
  "pc (daemon_scan s) \<noteq> D_asleep"
  by (simp_all add: daemon_scan_def split: option.splits)

lemma push_fields:
  "push_callback cb s = Some (x, s') \<Longrightarrow>
     write_daemon_wait_count s' = write_daemon_wait_count s
     \<and> write_daemon_kick_count s' = write_daemon_kick_count s \<and> pc s' = pc s"
  by (auto simp: push_callback_def Let_def split: if_splits option.splits)

text \<open>
  What one step does to the two counters: the daemon goes to sleep and counts one more
  wait, or the wait count stays and the kick count stays or, being behind, goes up by one.
\<close>

lemma exec_counts:
  "(pc s \<noteq> D_asleep \<and> pc (exec ps a s) = D_asleep
      \<and> write_daemon_wait_count (exec ps a s) = write_daemon_wait_count s + 1
      \<and> write_daemon_kick_count (exec ps a s) = write_daemon_kick_count s)
   \<or> (\<not> (pc s \<noteq> D_asleep \<and> pc (exec ps a s) = D_asleep)
      \<and> write_daemon_wait_count (exec ps a s) = write_daemon_wait_count s
      \<and> (write_daemon_kick_count (exec ps a s) = write_daemon_kick_count s
         \<or> write_daemon_kick_count s < write_daemon_wait_count s
           \<and> write_daemon_kick_count (exec ps a s) = write_daemon_kick_count s + 1))"
proof (cases a)
  case (Push n)
  then show ?thesis by (auto split: option.splits dest: push_fields)
next
  case (Remove_fast x)
  then show ?thesis by (simp add: remove_fast_def)
next
  case (Store_block x b)
  then show ?thesis by simp
next
  case Kick
  then show ?thesis by (simp add: kick_fields)
next
  case (Wait_durable x)
  then show ?thesis by (simp add: kick_fields wait_durable_section_def)
next
  case (Wait_dmark x)
  then show ?thesis by (simp add: kick_fields wait_dmark_section_def)
next
  case Shutdown
  then show ?thesis by (simp add: kick_fields)
next
  case (Daemon_refresh t)
  then show ?thesis by (simp add: refresh_fields)
next
  case Daemon_scan
  then show ?thesis using scan_fields [of s] by (cases "pc s = D_refreshed") simp_all
next
  case Daemon_check
  then show ?thesis using daemon_check_wait [of s] daemon_check_kick [of s]
    by (cases "pc s = D_scanned") simp_all
next
  case (Daemon_flush g n)
  then show ?thesis using flush_fields [of ps g n s] by (cases "pc s = D_flushing") auto
next
  case Daemon_wake
  then show ?thesis by (cases "pc s = D_asleep") simp_all
qed

lemma counts_run_sleeps:
  "write_daemon_kick_count s \<le> write_daemon_wait_count s \<Longrightarrow>
   unat (write_daemon_wait_count s) + sleeps ps as s < 2 ^ 64 \<Longrightarrow>
   write_daemon_kick_count (run ps as s) \<le> write_daemon_wait_count (run ps as s)"
proof (induction as arbitrary: s)
  case Nil
  then show ?case by simp
next
  case (Cons a as)
  let ?s' = "exec ps a s"
  from exec_counts [of s ps a]
  have "write_daemon_kick_count ?s' \<le> write_daemon_wait_count ?s'
        \<and> unat (write_daemon_wait_count ?s') + sleeps ps as ?s' < 2 ^ 64"
  proof
    assume h: "pc s \<noteq> D_asleep \<and> pc ?s' = D_asleep
      \<and> write_daemon_wait_count ?s' = write_daemon_wait_count s + 1
      \<and> write_daemon_kick_count ?s' = write_daemon_kick_count s"
    with Cons.prems(2) have b: "unat (write_daemon_wait_count s) + 1 + sleeps ps as ?s' < 2 ^ 64"
      by (simp del: exec.simps)
    then have "unat (write_daemon_wait_count s) < 2 ^ 64 - 1" by simp
    then have "write_daemon_wait_count s \<noteq> - 1" using unat_max64 by auto
    then have lt: "write_daemon_wait_count s < write_daemon_wait_count s + 1"
      using inc_less_eq_self_iff_eq [of "write_daemon_wait_count s"] by auto
    have "unat (write_daemon_wait_count s + 1) \<le> unat (write_daemon_wait_count s) + 1"
      by (rule unat_inc64)
    with b h lt Cons.prems(1) show ?thesis by (auto simp del: exec.simps)
  next
    assume h: "\<not> (pc s \<noteq> D_asleep \<and> pc ?s' = D_asleep)
      \<and> write_daemon_wait_count ?s' = write_daemon_wait_count s
      \<and> (write_daemon_kick_count ?s' = write_daemon_kick_count s
         \<or> write_daemon_kick_count s < write_daemon_wait_count s
           \<and> write_daemon_kick_count ?s' = write_daemon_kick_count s + 1)"
    then have "sleeps ps (a # as) s = sleeps ps as ?s'" by (auto simp del: exec.simps)
    with h Cons.prems show ?thesis by (auto simp del: exec.simps simp: inc_le)
  qed
  then show ?case using Cons.IH [of ?s'] by (simp del: exec.simps)
qed

lemma idle_after_cycle:
  assumes "idle_after n s" and "n < 2 ^ 64 - 1"
  shows "idle_after (Suc n) (run ps0 kick_cycle s)"
  using assms of_nat_inc64 [of n]
  by (simp add: idle_after_def kick_cycle_def step_defs example_defs add.commute)

lemma idle_after_cycles:
  "n \<le> 2 ^ 64 - 1 \<Longrightarrow> idle_after n (run ps0 (concat (replicate n kick_cycle)) s0)"
proof (induction n)
  case 0
  show ?case by (simp add: idle_after_def example_defs)
next
  case (Suc n)
  then have "idle_after n (run ps0 (concat (replicate n kick_cycle)) s0)" and "n < 2 ^ 64 - 1"
    by simp_all
  then have "idle_after (Suc n)
               (run ps0 kick_cycle (run ps0 (concat (replicate n kick_cycle)) s0))"
    by (rule idle_after_cycle)
  then show ?case by (simp only: concat_replicate_snoc run_append)
qed

text \<open>
  Claim C9, as the code has it. From the constructor's state, along every sequence of
  steps in which the daemon has gone to sleep fewer than \<open>2 ^ 64\<close> times (so that the
  64-bit wait count has not wrapped around), the kick count is at most the wait count.
\<close>

theorem kick_count_le_wait_count:
  "sleeps ps as (init ps dlsn sid0) < 2 ^ 64 \<Longrightarrow>
   write_daemon_kick_count (run ps as (init ps dlsn sid0))
     \<le> write_daemon_wait_count (run ps as (init ps dlsn sid0))"
  by (rule counts_run_sleeps) (simp_all add: init_def)

theorem kick_count_le_wait_count_witness:
  "sleeps ps0 kick_cycle s0 < 2 ^ 64
   \<and> write_daemon_kick_count (run ps0 kick_cycle s0)
       \<le> write_daemon_wait_count (run ps0 kick_cycle s0)"
proof -
  have h: "sleeps ps0 kick_cycle (init ps0 \<lparr>segment = 0, offset = 0\<rparr> seg0) < 2 ^ 64"
    by (simp add: kick_cycle_def step_defs example_defs)
  from kick_count_le_wait_count [OF h] h show ?thesis by (simp add: s0_def)
qed

text \<open>
  Claim C9 as stated (in every reachable state) fails where the wait count wraps. The
  daemon sleeps and is kicked awake \<open>2 ^ 64 - 1\<close> times, which leaves both counters at
  their largest value; when it goes to sleep once more the wait count wraps to 0 and the
  kick count is above it.
\<close>

theorem kick_count_overtakes_wrapped_wait_count:
  "write_daemon_wait_count
     (run ps0 (concat (replicate (2 ^ 64 - 1) kick_cycle)
               @ [Daemon_refresh 0, Daemon_scan, Daemon_check]) s0)
   < write_daemon_kick_count
     (run ps0 (concat (replicate (2 ^ 64 - 1) kick_cycle)
               @ [Daemon_refresh 0, Daemon_scan, Daemon_check]) s0)"
proof -
  have "idle_after (2 ^ 64 - 1) (run ps0 (concat (replicate (2 ^ 64 - 1) kick_cycle)) s0)"
    by (rule idle_after_cycles) simp
  then show ?thesis
    unfolding run_append
    by (simp add: idle_after_def step_defs example_defs)
qed

subsection \<open>Waiting for the durable watermark\<close>

lemma wait_rounds_simps [simp]:
  "wait_rounds ps X [] s = s"
  "wait_rounds ps X (e # sched) s = wait_rounds ps X sched (wait_round ps X e s)"
  by (simp_all add: wait_rounds_def)

lemma wait_for_durable_iff:
  "wait_for_durable ps X sched s = Some (s', k) \<longleftrightarrow>
     k \<le> length sched \<and> s' = wait_rounds ps X (take k sched) s \<and> \<not> dur_lsn_offset s' < X
     \<and> (\<forall>j<k. dur_lsn_offset (wait_rounds ps X (take j sched) s) < X)"
proof (induction sched arbitrary: s k)
  case Nil
  then show ?case by auto
next
  case (Cons e sched)
  show ?case
  proof (cases "dur_lsn_offset s < X")
    case False
    then show ?thesis by (cases k) auto
  next
    case True
    show ?thesis
    proof (cases k)
      case 0
      with True show ?thesis by auto
    next
      case (Suc k')
      have "(\<forall>j<Suc k'. dur_lsn_offset (wait_rounds ps X (take j (e # sched)) s) < X)
            \<longleftrightarrow> (\<forall>j<k'. dur_lsn_offset (wait_rounds ps X (take j sched) (wait_round ps X e s)) < X)"
        using True by (auto simp: less_Suc_eq_0_disj)
      with True Suc Cons.IH [of "wait_round ps X e s" k'] show ?thesis by auto
    qed
  qed
qed

subsection \<open>The durable watermark\<close>

lemma durable_emit [simp]: "durable_lsn_offset (emit e s) = durable_lsn_offset s"
  by (simp add: emit_def)

lemma durable_kick [simp]: "durable_lsn_offset (kick_log_write_daemon s) = durable_lsn_offset s"
  by (simp add: kick_log_write_daemon_def)

lemma durable_update_dmark [simp]: "durable_lsn_offset (update_dmark s) = durable_lsn_offset s"
  by (simp add: update_dmark_def Let_def)

lemma durable_push:
  "push_callback cb s = Some (x, s') \<Longrightarrow> durable_lsn_offset s' = durable_lsn_offset s"
  by (auto simp: push_callback_def Let_def split: if_splits option.splits)

lemma try_exit_frame [simp]:
  "durable_lsn_offset (daemon_try_exit d s) = durable_lsn_offset s"
  "oldest_offset (daemon_try_exit d s) = oldest_offset s"
  by (auto simp: daemon_try_exit_def push_callback_def peek_raw0_def remove_and_kill_def
        remove_fast_def daemon_cb_def update_dmark_def emit_def Let_def
      split: option.splits list.splits if_splits prod.splits)

lemma durable_check [simp]: "durable_lsn_offset (daemon_check s) = durable_lsn_offset s"
  by (simp add: daemon_check_def daemon_sleep_def Let_def)

lemma durable_refresh [simp]: "durable_lsn_offset (daemon_refresh t s) = durable_lsn_offset s"
  by (simp add: daemon_refresh_def Let_def)

lemma durable_scan [simp]: "durable_lsn_offset (daemon_scan s) = durable_lsn_offset s"
  by (simp add: daemon_scan_def split: option.splits)

text \<open>What a round of the flush loop publishes.\<close>

lemma durable_flush:
  "durable_lsn_offset (daemon_flush ps g n s) = durable_lsn_offset s
   \<or> (durable_lsn_offset s < oldest_offset s \<and> \<not> crossing ps s
      \<and> durable_lsn_offset (daemon_flush ps g n s) = oldest_offset s)
   \<or> (durable_lsn_offset s < oldest_offset s \<and> crossing ps s
      \<and> (\<exists>new_sid. g ((segnum (durable_sid s) + 1) mod NUM_LOG_SEGMENTS ps) = Some new_sid
            \<and> durable_lsn_offset (daemon_flush ps g n s) = start_offset new_sid))"
  by (auto simp: daemon_flush_def Let_def split: option.splits)

lemma durable_exec_other:
  "(\<forall>g n. a \<noteq> Daemon_flush g n) \<Longrightarrow> durable_lsn_offset (exec ps a s) = durable_lsn_offset s"
  by (cases a)
     (auto simp: remove_fast_def wait_durable_section_def wait_dmark_section_def
        split: option.splits dest: durable_push)

lemma durable_exec_mono:
  "(case crossing_target ps a s of None \<Rightarrow> True
    | Some new_sid \<Rightarrow> durable_lsn_offset s \<le> start_offset new_sid)
   \<Longrightarrow> durable_lsn_offset s \<le> durable_lsn_offset (exec ps a s)"
proof (cases "\<exists>g n. a = Daemon_flush g n")
  case False
  then show ?thesis by (simp add: durable_exec_other del: exec.simps)
next
  case True
  then obtain g n where a: "a = Daemon_flush g n" by blast
  assume h: "case crossing_target ps a s of None \<Rightarrow> True
    | Some new_sid \<Rightarrow> durable_lsn_offset s \<le> start_offset new_sid"
  show ?thesis
  proof (cases "pc s = D_flushing")
    case False
    with a show ?thesis by simp
  next
    case True
    with a h durable_flush [of ps g n s] show ?thesis by auto
  qed
qed

lemma advancing_durable_mono:
  "advancing ps as s \<Longrightarrow> durable_lsn_offset s \<le> durable_lsn_offset (run ps as s)"
proof (induction as arbitrary: s)
  case Nil
  then show ?case by simp
next
  case (Cons a as)
  then have "durable_lsn_offset s \<le> durable_lsn_offset (exec ps a s)"
    and "durable_lsn_offset (exec ps a s) \<le> durable_lsn_offset (run ps as (exec ps a s))"
    by (auto intro: durable_exec_mono simp del: exec.simps)
  then show ?case by (simp del: exec.simps)
qed

lemma remove_fast_list_hd:
  "ns \<noteq> [] \<Longrightarrow> remove_fast_list x ns \<noteq> []
     \<and> next_lsn_offset (hd (remove_fast_list x ns)) = next_lsn_offset (hd ns)"
  by (cases ns) auto

lemma remove_fast_list_lsn:
  "n \<in> set (remove_fast_list x ns) \<Longrightarrow> \<exists>m\<in>set ns. lsn_offset m = lsn_offset n"
proof (induction ns)
  case Nil
  then show ?case by simp
next
  case (Cons a ns)
  then show ?case by (auto split: if_splits dest: set_dropWhileD)
qed

lemma remove_fast_list_live:
  "n \<in> set (remove_fast_list x ns) \<Longrightarrow> \<not> dead n \<Longrightarrow> n \<in> set ns"
proof (induction ns)
  case Nil
  then show ?case by simp
next
  case (Cons a ns)
  then show ?case by (auto split: if_splits dest: set_dropWhileD)
qed

lemma descending_dropWhile: "descending ns \<Longrightarrow> descending (dropWhile P ns)"
  by (induction ns) (auto simp: descending_def)

lemma remove_fast_list_descending:
  "descending ns \<Longrightarrow> descending (remove_fast_list x ns)"
proof (induction ns)
  case Nil
  then show ?case by simp
next
  case (Cons a ns)
  show ?case
  proof (cases "addr a = x")
    case True
    have "descending (dropWhile dead ns)"
      using Cons.prems by (auto simp: descending_def intro: descending_dropWhile [unfolded descending_def])
    then show ?thesis using True Cons.prems
      by (auto simp: descending_def dest: set_dropWhileD)
  next
    case False
    have "descending (remove_fast_list x ns)" using Cons by (simp add: descending_def)
    then show ?thesis using False Cons.prems
      by (auto simp: descending_def dest!: remove_fast_list_lsn) 
  qed
qed

lemma list_inv_remove_fast: "list_inv ns \<Longrightarrow> list_inv (remove_fast_list x ns)"
  unfolding list_inv_def
  using remove_fast_list_hd [of ns x] remove_fast_list_descending [of ns x]
  by (auto dest!: remove_fast_list_lsn)

lemma foldl_last: "foldl (\<lambda>_ x. f x) c xs = (if xs = [] then c else f (last xs))"
  by (induction xs arbitrary: c) auto

lemma descending_last:
  "descending ns \<Longrightarrow> n \<in> set ns \<Longrightarrow> lsn_offset (last ns) \<le> lsn_offset n"
  by (induction ns) (auto simp: descending_def)

lemma descending_live: "descending ns \<Longrightarrow> descending (live ns)"
  by (simp add: descending_def live_def sorted_wrt_filter)

lemma list_inv_push:
  assumes "list_inv (h # t)" and "next_lsn_offset h \<le> next_lsn_offset n"
    and "lsn_offset n = next_lsn_offset h"
  shows "list_inv (n # h # t)"
  using assms by (auto simp: list_inv_def descending_def)

lemma kick_frame [simp]:
  "block_list (kick_log_write_daemon s) = block_list s"
  "oldest_offset (kick_log_write_daemon s) = oldest_offset s"
  "list_killed (kick_log_write_daemon s) = list_killed s"
  "pc (kick_log_write_daemon s) = pc s"
  by (simp_all add: kick_log_write_daemon_def emit_def)

lemma emit_frame [simp]:
  "block_list (emit e s) = block_list s"
  "oldest_offset (emit e s) = oldest_offset s"
  "list_killed (emit e s) = list_killed s"
  "next_addr (emit e s) = next_addr s"
  "cur_offset (emit e s) = cur_offset s"
  "write_daemon_should_stop (emit e s) = write_daemon_should_stop s"
  by (simp_all add: emit_def)

lemma refresh_frame [simp]:
  "block_list (daemon_refresh t s) = block_list s"
  "oldest_offset (daemon_refresh t s) = oldest_offset s"
  "list_killed (daemon_refresh t s) = list_killed s"
  "pc (daemon_refresh t s) = pc s"
  by (simp_all add: daemon_refresh_def update_dmark_def Let_def)

lemma try_exit_list:
  assumes "\<not> list_killed s" and "block_list s = h # t"
  shows "(block_list (daemon_try_exit d s) = h # t
            \<and> (pc (daemon_try_exit d s) = D_exited \<or> pc (daemon_try_exit d s) = D_died))
          \<or> (block_list (daemon_try_exit d s)
               = remove_fast_list (next_addr s)
                   (\<lparr>addr = next_addr s, lsn_offset = next_lsn_offset h,
                      next_lsn_offset = next_lsn_offset h, dead = False\<rparr> # h # t)
             \<and> pc (daemon_try_exit d s) = pc s \<and> \<not> list_killed (daemon_try_exit d s))"
  using assms
  by (auto simp: daemon_try_exit_def push_callback_def peek_raw0_def remove_and_kill_def
        remove_fast_def daemon_cb_def update_dmark_def emit_def Let_def
      split: option.splits list.splits if_splits prod.splits)

lemma list_inv_sentinel:
  assumes "list_inv (h # t)"
  shows "list_inv (remove_fast_list x
           (\<lparr>addr = a, lsn_offset = next_lsn_offset h, next_lsn_offset = next_lsn_offset h,
              dead = False\<rparr> # h # t))"
    and "next_lsn_offset (hd (remove_fast_list x
           (\<lparr>addr = a, lsn_offset = next_lsn_offset h, next_lsn_offset = next_lsn_offset h,
              dead = False\<rparr> # h # t))) = next_lsn_offset h"
proof -
  let ?n = "\<lparr>addr = a, lsn_offset = next_lsn_offset h, next_lsn_offset = next_lsn_offset h,
              dead = False\<rparr>"
  have "list_inv (?n # h # t)" using assms by (intro list_inv_push) simp_all
  then show "list_inv (remove_fast_list x (?n # h # t))" by (rule list_inv_remove_fast)
  show "next_lsn_offset (hd (remove_fast_list x (?n # h # t))) = next_lsn_offset h"
    using remove_fast_list_hd [of "?n # h # t" x] by simp
qed

lemma inv_try_exit:
  assumes "alloc_inv s" and "pc s = D_scanned"
  shows "alloc_inv (daemon_try_exit d s)
         \<and> (pc (daemon_try_exit d s) = D_exited \<or> pc (daemon_try_exit d s) = D_died
            \<or> \<not> list_killed (daemon_try_exit d s))"
proof -
  from assms have nk: "\<not> list_killed s" by (auto simp: alloc_inv_def)
  from assms obtain h t where l: "block_list s = h # t"
    by (cases "block_list s") (auto simp: alloc_inv_def list_inv_def)
  from assms l have li: "list_inv (h # t)" and du: "durable_lsn_offset s \<le> next_lsn_offset h"
    by (auto simp: alloc_inv_def)
  from assms l have sc0: "oldest_offset s \<le> next_lsn_offset h"
    and sc1: "\<forall>n\<in>set (live (h # t)). oldest_offset s \<le> lsn_offset n"
    by (auto simp: alloc_inv_def scan_inv_def)
  let ?n = "\<lparr>addr = next_addr s, lsn_offset = next_lsn_offset h,
              next_lsn_offset = next_lsn_offset h, dead = False\<rparr>"
  from try_exit_list [OF nk l, of d] show ?thesis
  proof
    assume "block_list (daemon_try_exit d s) = h # t
            \<and> (pc (daemon_try_exit d s) = D_exited \<or> pc (daemon_try_exit d s) = D_died)"
    then show ?thesis using li du by (auto simp: alloc_inv_def scan_inv_def)
  next
    assume "block_list (daemon_try_exit d s) = remove_fast_list (next_addr s) (?n # h # t)
             \<and> pc (daemon_try_exit d s) = pc s \<and> \<not> list_killed (daemon_try_exit d s)"
    then have b: "block_list (daemon_try_exit d s) = remove_fast_list (next_addr s) (?n # h # t)"
      and k: "\<not> list_killed (daemon_try_exit d s)" by simp_all
    have hd: "next_lsn_offset (hd (block_list (daemon_try_exit d s))) = next_lsn_offset h"
      unfolding b by (rule list_inv_sentinel(2) [OF li])
    have li': "list_inv (block_list (daemon_try_exit d s))"
      unfolding b by (rule list_inv_sentinel(1) [OF li])
    have lv: "\<forall>n\<in>set (live (block_list (daemon_try_exit d s))). oldest_offset s \<le> lsn_offset n"
    proof
      fix n assume "n \<in> set (live (block_list (daemon_try_exit d s)))"
      then have "n \<in> set (remove_fast_list (next_addr s) (?n # h # t))" and nd: "\<not> dead n"
        unfolding b by (simp_all add: live_def)
      then have "n \<in> set (?n # h # t)" by (rule remove_fast_list_live)
      then show "oldest_offset s \<le> lsn_offset n" using sc0 sc1 nd by (auto simp: live_def)
    qed
    show ?thesis using li' hd lv du sc0 k by (simp add: alloc_inv_def scan_inv_def)
  qed
qed

lemma inv_sleep: "alloc_inv s \<Longrightarrow> \<not> list_killed s \<Longrightarrow> alloc_inv (daemon_sleep s)"
  by (auto simp: alloc_inv_def scan_inv_def daemon_sleep_def emit_def)

lemma inv_emit: "alloc_inv s \<Longrightarrow> alloc_inv (emit e s)"
  by (simp add: alloc_inv_def scan_inv_def emit_def)

lemma inv_pc: "alloc_inv s \<Longrightarrow> p \<noteq> D_scanned \<Longrightarrow> p \<noteq> D_flushing \<Longrightarrow> \<not> list_killed s \<Longrightarrow> alloc_inv (s\<lparr>pc := p\<rparr>)"
  by (simp add: alloc_inv_def scan_inv_def)

lemma inv_flushing: "alloc_inv s \<Longrightarrow> pc s = D_scanned \<Longrightarrow> alloc_inv (s\<lparr>pc := D_flushing\<rparr>)"
  by (simp add: alloc_inv_def scan_inv_def)

lemma inv_check:
  assumes "alloc_inv s" and "pc s = D_scanned"
  shows "alloc_inv (daemon_check s)"
proof -
  from assms have nk: "\<not> list_killed s" by (auto simp: alloc_inv_def)
  let ?s1 = "emit Broadcast_write_complete_cond s"
  let ?d = "offset (durable_mark s)"
  have i1: "alloc_inv ?s1" using assms(1) by (rule inv_emit)
  have p1: "pc ?s1 = D_scanned" using assms(2) by simp
  have nk1: "\<not> list_killed ?s1" using nk by simp
  note te = inv_try_exit [OF i1 p1, of ?d]
  show ?thesis
  proof (cases "oldest_offset s = durable_lsn_offset s")
    case False
    then show ?thesis using assms by (simp add: daemon_check_def inv_flushing)
  next
    case True
    show ?thesis
    proof (cases "?d < waiting_for_dmark s \<and> waiting_for_dmark s \<le> durable_lsn_offset s")
      case True
      with \<open>oldest_offset s = durable_lsn_offset s\<close> show ?thesis
        using assms nk by (simp add: daemon_check_def Let_def inv_pc)
    next
      case False
      show ?thesis
      proof (cases "durable_lsn_offset s = cur_offset s \<and> write_daemon_should_stop s")
        case False
        with \<open>\<not> (?d < waiting_for_dmark s \<and> waiting_for_dmark s \<le> durable_lsn_offset s)\<close>
          \<open>oldest_offset s = durable_lsn_offset s\<close>
        have "daemon_check s = daemon_sleep ?s1" by (auto simp add: daemon_check_def Let_def)
        then show ?thesis using inv_sleep [OF i1 nk1] by simp
      next
        case True
        with \<open>\<not> (?d < waiting_for_dmark s \<and> waiting_for_dmark s \<le> durable_lsn_offset s)\<close>
          \<open>oldest_offset s = durable_lsn_offset s\<close>
        have e: "daemon_check s =
                   (if pc (daemon_try_exit ?d ?s1) = D_exited \<or> pc (daemon_try_exit ?d ?s1) = D_died
                    then daemon_try_exit ?d ?s1 else daemon_sleep (daemon_try_exit ?d ?s1))"
          by (auto simp add: daemon_check_def Let_def)
        show ?thesis unfolding e using te inv_sleep [of "daemon_try_exit ?d ?s1"] by auto
      qed
    qed
  qed
qed

lemma inv_push:
  assumes "alloc_inv s" and "no_wrap (Push nbytes) s"
  shows "alloc_inv (exec ps (Push nbytes) s)"
proof (cases "list_killed s")
  case True
  then show ?thesis using assms(1) by (simp add: push_callback_def)
next
  case False
  from assms obtain h t where l: "block_list s = h # t"
    by (cases "block_list s") (auto simp: alloc_inv_def list_inv_def)
  let ?n = "\<lparr>addr = next_addr s, lsn_offset = next_lsn_offset h,
              next_lsn_offset = next_lsn_offset h + nbytes, dead = False\<rparr>"
  have e: "exec ps (Push nbytes) s
             = s\<lparr>block_list := ?n # h # t, next_addr := Suc (next_addr s)\<rparr>"
    using False l by (simp add: push_callback_def peek_raw0_def allocate_cb_def Let_def)
  from assms(2) l have nw: "next_lsn_offset h \<le> next_lsn_offset h + nbytes"
    by (simp add: peek_raw0_def)
  from assms(1) l have li: "list_inv (h # t)" by (simp add: alloc_inv_def)
  have li': "list_inv (?n # h # t)" using li nw by (intro list_inv_push) simp_all
  show ?thesis unfolding e using assms(1) l li' nw False
    by (auto simp: alloc_inv_def scan_inv_def live_def)
qed

lemma inv_remove_fast:
  assumes "alloc_inv s"
  shows "alloc_inv (remove_fast x s)"
proof -
  let ?l = "block_list s"
  let ?l' = "remove_fast_list x ?l"
  from assms have li: "list_inv ?l" by (simp add: alloc_inv_def)
  then have ne: "?l \<noteq> []" by (simp add: list_inv_def)
  have li': "list_inv ?l'" using li by (rule list_inv_remove_fast)
  have hd: "next_lsn_offset (hd ?l') = next_lsn_offset (hd ?l)"
    using remove_fast_list_hd [OF ne] by simp
  have lv: "\<And>n. n \<in> set (live ?l') \<Longrightarrow> n \<in> set (live ?l)"
    by (auto simp: live_def dest: remove_fast_list_live)
  have sc: "scan_inv (remove_fast x s)"
    using assms lv unfolding alloc_inv_def scan_inv_def remove_fast_def by (simp add: hd)
  show ?thesis using assms li' sc by (simp add: alloc_inv_def remove_fast_def hd)
qed

lemma inv_scan:
  assumes "alloc_inv s" and "pc s = D_refreshed"
  shows "alloc_inv (daemon_scan s)"
proof -
  from assms have nk: "\<not> list_killed s" by (auto simp: alloc_inv_def)
  from assms obtain h t where l: "block_list s = h # t"
    by (cases "block_list s") (auto simp: alloc_inv_def list_inv_def)
  let ?o = "foldl (\<lambda>_ x. lsn_offset x) (next_lsn_offset h) (live (h # t))"
  have e: "daemon_scan s = s\<lparr>cur_offset := next_lsn_offset h, oldest_offset := ?o, pc := D_scanned\<rparr>"
    using l by (simp add: daemon_scan_def cur_lsn_offset_def peek_raw0_def)
  from assms l have li: "list_inv (h # t)" by (simp add: alloc_inv_def)
  then have d: "descending (live (h # t))" by (simp add: list_inv_def descending_live)
  have o1: "?o \<le> next_lsn_offset h"
  proof (cases "live (h # t) = []")
    case True
    then show ?thesis by (simp add: foldl_last)
  next
    case False
    then have "last (live (h # t)) \<in> set (live (h # t))" by (rule last_in_set)
    then have "last (live (h # t)) \<in> set (h # t)"
      using filter_is_subset [of "\<lambda>n. \<not> dead n" "h # t"] unfolding live_def by blast
    then show ?thesis using li False by (auto simp: foldl_last list_inv_def)
  qed
  have o2: "\<forall>n\<in>set (live (h # t)). ?o \<le> lsn_offset n"
  proof
    fix n assume n: "n \<in> set (live (h # t))"
    then have "live (h # t) \<noteq> []" by auto
    then show "?o \<le> lsn_offset n" using descending_last [OF d n] by (simp add: foldl_last)
  qed
  show ?thesis unfolding e using assms(1) nk l o1 o2 by (simp add: alloc_inv_def scan_inv_def)
qed

lemma inv_flush:
  assumes "alloc_inv s" and "pc s = D_flushing"
    and "case crossing_target ps (Daemon_flush g n) s of
           None \<Rightarrow> True
         | Some new_sid \<Rightarrow> (case cur_lsn_offset s of None \<Rightarrow> False
                             | Some c \<Rightarrow> start_offset new_sid \<le> c)"
  shows "alloc_inv (daemon_flush ps g n s)"
proof -
  from assms obtain h t where l: "block_list s = h # t"
    by (cases "block_list s") (auto simp: alloc_inv_def list_inv_def)
  have f: "block_list (daemon_flush ps g n s) = block_list s"
     "list_killed (daemon_flush ps g n s) = list_killed s"
     "oldest_offset (daemon_flush ps g n s) = oldest_offset s"
     "pc (daemon_flush ps g n s) = pc s \<or> pc (daemon_flush ps g n s) = D_top
        \<or> pc (daemon_flush ps g n s) = D_died"
    by (auto simp: daemon_flush_def emit_def Let_def split: option.splits)
  have d: "durable_lsn_offset (daemon_flush ps g n s) \<le> next_lsn_offset h"
    using durable_flush [of ps g n s] assms l
    by (auto simp: alloc_inv_def scan_inv_def cur_lsn_offset_def peek_raw0_def)
  from assms(1,2) have nk: "\<not> list_killed s" by (auto simp: alloc_inv_def)
  show ?thesis using assms(1,2) f d l nk by (auto simp: alloc_inv_def scan_inv_def)
qed

lemma inv_exec:
  assumes "alloc_inv s" and "no_wrap a s"
    and "case crossing_target ps a s of
           None \<Rightarrow> True
         | Some new_sid \<Rightarrow> (case cur_lsn_offset s of None \<Rightarrow> False
                             | Some c \<Rightarrow> start_offset new_sid \<le> c)"
  shows "alloc_inv (exec ps a s)"
proof (cases a)
  case (Push nbytes)
  then show ?thesis using assms inv_push by simp
next
  case (Remove_fast x)
  then show ?thesis using assms inv_remove_fast by simp
next
  case (Store_block x b)
  then show ?thesis using assms(1) by (simp add: alloc_inv_def scan_inv_def)
next
  case Kick
  then show ?thesis using assms(1) by (simp add: alloc_inv_def scan_inv_def)
next
  case (Wait_durable x)
  then show ?thesis using assms(1)
    by (simp add: alloc_inv_def scan_inv_def wait_durable_section_def)
next
  case (Wait_dmark x)
  then show ?thesis using assms(1)
    by (simp add: alloc_inv_def scan_inv_def wait_dmark_section_def)
next
  case Shutdown
  then show ?thesis using assms(1) by (simp add: alloc_inv_def scan_inv_def)
next
  case (Daemon_refresh t)
  then show ?thesis using assms(1)
    by (cases "pc s = D_top") (auto simp: alloc_inv_def scan_inv_def)
next
  case Daemon_scan
  then show ?thesis using assms(1) inv_scan by (cases "pc s = D_refreshed") simp_all
next
  case Daemon_check
  then show ?thesis using assms(1) inv_check by (cases "pc s = D_scanned") simp_all
next
  case (Daemon_flush g n)
  then show ?thesis using assms inv_flush [of s ps g n]
    by (cases "pc s = D_flushing") (simp_all del: crossing_target.simps)
next
  case Daemon_wake
  then show ?thesis using assms(1)
    by (cases "pc s = D_asleep") (auto simp: alloc_inv_def scan_inv_def)
qed

lemma inv_init: "alloc_inv (init ps dlsn sid0)"
  by (simp add: alloc_inv_def scan_inv_def list_inv_def descending_def init_def)

lemma inv_run:
  "alloc_inv s \<Longrightarrow> bounded ps as s \<Longrightarrow> alloc_inv (run ps as s)"
proof (induction as arbitrary: s)
  case Nil
  then show ?case by simp
next
  case (Cons a as)
  then have "alloc_inv (exec ps a s)" by (intro inv_exec) (simp_all del: exec.simps)
  with Cons show ?case by (simp del: exec.simps)
qed

lemma advancing_append:
  "advancing ps (as @ bs) s \<longleftrightarrow> advancing ps as s \<and> advancing ps bs (run ps as s)"
  by (induction as arbitrary: s) (simp_all del: exec.simps crossing_target.simps)

lemma bounded_append:
  "bounded ps (as @ bs) s \<longleftrightarrow> bounded ps as s \<and> bounded ps bs (run ps as s)"
  by (induction as arbitrary: s) (simp_all del: exec.simps crossing_target.simps no_wrap.simps)

text \<open>
  Claim C2, as the code has it. Take any sequence of steps from the constructor's state
  in which no push wraps the 64-bit offset around and every segment the daemon crosses
  into starts at or after the durable watermark and at or before the allocation frontier
  of that moment. Then the durable watermark never decreases, and in every state reached
  it is at most \<open>cur_lsn_offset\<close>. Only a round of the daemon's flush loop changes it.
  Such a round leaves it, or (no crossing) publishes \<open>oldest_offset\<close>, which is above
  the old watermark, at most the \<open>lsn_offset\<close> of every live allocation and at most
  \<open>cur_lsn_offset\<close>, or (crossing) publishes the \<open>start_offset\<close> of the next segment.
\<close>

theorem durable_watermark:
  fixes ps :: params and as bs :: "action list" and dlsn :: LSN and sid0 :: segment_id
  defines "s \<equiv> run ps as (init ps dlsn sid0)"
    and "s' \<equiv> run ps (as @ bs) (init ps dlsn sid0)"
  assumes "advancing ps (as @ bs) (init ps dlsn sid0)"
    and "bounded ps (as @ bs) (init ps dlsn sid0)"
  shows "dur_lsn_offset s \<le> dur_lsn_offset s'
       \<and> (\<exists>c. cur_lsn_offset s' = Some c \<and> dur_lsn_offset s' \<le> c)
       \<and> (\<forall>a. (\<forall>g n. a \<noteq> Daemon_flush g n) \<longrightarrow>
              dur_lsn_offset (exec ps a s') = dur_lsn_offset s')
       \<and> (\<forall>g n.
              dur_lsn_offset (exec ps (Daemon_flush g n) s') = dur_lsn_offset s'
            \<or> (\<not> crossing ps s'
               \<and> dur_lsn_offset s' < dur_lsn_offset (exec ps (Daemon_flush g n) s')
               \<and> dur_lsn_offset (exec ps (Daemon_flush g n) s') = oldest_offset s'
               \<and> (\<forall>x\<in>set (live (block_list s')).
                     dur_lsn_offset (exec ps (Daemon_flush g n) s') \<le> lsn_offset x)
               \<and> (\<exists>c. cur_lsn_offset s' = Some c
                      \<and> dur_lsn_offset (exec ps (Daemon_flush g n) s') \<le> c))
            \<or> (crossing ps s'
               \<and> (\<exists>new_sid. crossing_target ps (Daemon_flush g n) s' = Some new_sid
                      \<and> dur_lsn_offset (exec ps (Daemon_flush g n) s') = start_offset new_sid)))"
proof -
  from assms(3) have "advancing ps bs s" by (simp add: advancing_append s_def)
  then have mono: "dur_lsn_offset s \<le> dur_lsn_offset s'"
    using advancing_durable_mono [of ps bs s]
    by (simp add: dur_lsn_offset_def run_append s_def s'_def)
  have i: "alloc_inv s'" unfolding s'_def using inv_init assms(4) by (rule inv_run)
  then obtain h t where l: "block_list s' = h # t"
    by (cases "block_list s'") (auto simp: alloc_inv_def list_inv_def)
  then have cur: "cur_lsn_offset s' = Some (next_lsn_offset h)"
    by (simp add: cur_lsn_offset_def peek_raw0_def)
  from i l have dc: "dur_lsn_offset s' \<le> next_lsn_offset h"
    by (simp add: alloc_inv_def dur_lsn_offset_def)
  have other: "\<forall>a. (\<forall>g n. a \<noteq> Daemon_flush g n) \<longrightarrow>
              dur_lsn_offset (exec ps a s') = dur_lsn_offset s'"
    by (simp add: dur_lsn_offset_def durable_exec_other del: exec.simps)
  have flush: "dur_lsn_offset (exec ps (Daemon_flush g n) s') = dur_lsn_offset s'
            \<or> (\<not> crossing ps s'
               \<and> dur_lsn_offset s' < dur_lsn_offset (exec ps (Daemon_flush g n) s')
               \<and> dur_lsn_offset (exec ps (Daemon_flush g n) s') = oldest_offset s'
               \<and> (\<forall>x\<in>set (live (block_list s')).
                     dur_lsn_offset (exec ps (Daemon_flush g n) s') \<le> lsn_offset x)
               \<and> (\<exists>c. cur_lsn_offset s' = Some c
                      \<and> dur_lsn_offset (exec ps (Daemon_flush g n) s') \<le> c))
            \<or> (crossing ps s'
               \<and> (\<exists>new_sid. crossing_target ps (Daemon_flush g n) s' = Some new_sid
                      \<and> dur_lsn_offset (exec ps (Daemon_flush g n) s') = start_offset new_sid))"
    for g n
  proof (cases "pc s' = D_flushing")
    case False
    then show ?thesis by simp
  next
    case True
    with i l have sc: "oldest_offset s' \<le> next_lsn_offset h"
      "\<forall>x\<in>set (live (block_list s')). oldest_offset s' \<le> lsn_offset x"
      by (auto simp: alloc_inv_def scan_inv_def)
    from durable_flush [of ps g n s'] True sc cur show ?thesis
      by (auto simp: dur_lsn_offset_def)
  qed
  show ?thesis using mono cur dc other flush by blast
qed

theorem durable_watermark_witness:
  "advancing ps0 (crossing_run @ [crossing_flush]) s0
   \<and> bounded ps0 (crossing_run @ [crossing_flush]) s0
   \<and> dur_lsn_offset (run ps0 crossing_run s0)
       \<le> dur_lsn_offset (run ps0 (crossing_run @ [crossing_flush]) s0)
   \<and> (\<exists>c. cur_lsn_offset (run ps0 (crossing_run @ [crossing_flush]) s0) = Some c
          \<and> dur_lsn_offset (run ps0 (crossing_run @ [crossing_flush]) s0) \<le> c)"
proof -
  have a: "advancing ps0 (crossing_run @ [crossing_flush])
             (init ps0 \<lparr>segment = 0, offset = 0\<rparr> seg0)"
    by (simp add: crossing_run_def crossing_flush_def step_defs example_defs)
  have b: "bounded ps0 (crossing_run @ [crossing_flush])
             (init ps0 \<lparr>segment = 0, offset = 0\<rparr> seg0)"
    by (simp add: crossing_run_def crossing_flush_def step_defs example_defs)
  from durable_watermark [OF a b] a b show ?thesis unfolding s0_def by blast
qed

text \<open>
  Claim C2 as stated fails in the crossing branch: what the daemon publishes there is the
  start of the next segment, whatever \<open>oldest_offset\<close> is. After \<open>crossing_run\<close> the
  oldest live allocation is the one between the segments, at 1100; the daemon publishes
  1300, above it (and below the frontier, 1500).
\<close>

theorem durable_watermark_passes_live_allocation:
  "advancing ps0 (crossing_run @ [crossing_flush]) s0
   \<and> bounded ps0 (crossing_run @ [crossing_flush]) s0
   \<and> dur_lsn_offset (run ps0 crossing_run s0) = 0
   \<and> oldest_offset (run ps0 crossing_run s0) = 1100
   \<and> dur_lsn_offset (run ps0 (crossing_run @ [crossing_flush]) s0) = 1300
   \<and> map lsn_offset (live (block_list (run ps0 (crossing_run @ [crossing_flush]) s0)))
       = [1300, 1100]
   \<and> cur_lsn_offset (run ps0 (crossing_run @ [crossing_flush]) s0) = Some 1500"
  by (simp add: crossing_run_def crossing_flush_def step_defs example_defs)

lemma wait_for_durable_returns:
  "j \<le> length sched \<Longrightarrow> X \<le> dur_lsn_offset (wait_rounds ps X (take j sched) s) \<Longrightarrow>
   \<exists>s' k. wait_for_durable ps X sched s = Some (s', k) \<and> k \<le> j"
proof (induction sched arbitrary: s j)
  case Nil
  then show ?case by (simp add: not_less)
next
  case (Cons e sched)
  show ?case
  proof (cases "dur_lsn_offset s < X")
    case False
    then show ?thesis by simp
  next
    case True
    with Cons.prems obtain j' where j: "j = Suc j'" by (cases j) (auto simp: not_less)
    with Cons.prems have "j' \<le> length sched"
      and "X \<le> dur_lsn_offset (wait_rounds ps X (take j' sched) (wait_round ps X e s))"
      by simp_all
    from Cons.IH [OF this] obtain s' k where
      "wait_for_durable ps X sched (wait_round ps X e s) = Some (s', k)" and "k \<le> j'" by blast
    with True j show ?thesis by simp
  qed
qed

text \<open>
  Claim C1. When \<open>wait_for_durable X\<close> returns, \<open>dur_lsn_offset\<close> is at least \<open>X\<close>
  in the state of the check that let it out; it went through the loop \<open>k\<close> times, and
  at every check before the last the watermark was below \<open>X\<close>. And it does return, at
  the latest at the first check at which the watermark has reached \<open>X\<close>.
\<close>

theorem wait_for_durable_returns_at_target:
  "(\<forall>s' k. wait_for_durable ps X sched s = Some (s', k) \<longrightarrow>
       X \<le> dur_lsn_offset s'
       \<and> k \<le> length sched
       \<and> s' = wait_rounds ps X (take k sched) s
       \<and> (\<forall>j<k. dur_lsn_offset (wait_rounds ps X (take j sched) s) < X))
   \<and> (\<forall>j. j \<le> length sched \<and> X \<le> dur_lsn_offset (wait_rounds ps X (take j sched) s) \<longrightarrow>
          (\<exists>s' k. wait_for_durable ps X sched s = Some (s', k) \<and> k \<le> j))"
  using wait_for_durable_returns [of _ sched X ps s]
  by (auto simp: wait_for_durable_iff)



theorem wait_for_durable_returns_at_target_witness:
  "wait_for_durable ps0 100 [([Push 100, Remove_fast 1], flush_100)] s0 = Some (s_waited, 1)
   \<and> 100 \<le> dur_lsn_offset s_waited
   \<and> dur_lsn_offset s0 < 100"
proof -
  have h: "wait_for_durable ps0 100 [([Push 100, Remove_fast 1], flush_100)] s0
             = Some (s_waited, 1)"
    by (simp add: s_waited_def wait_round_def flush_100_def step_defs example_defs)
  from wait_for_durable_returns_at_target
         [of ps0 100 "[([Push 100, Remove_fast 1], flush_100)]" s0] h
  have "100 \<le> dur_lsn_offset s_waited"
    by blast
  moreover have "dur_lsn_offset s0 < 100"
    by (simp add: dur_lsn_offset_def example_defs)
  ultimately show ?thesis using h by blast
qed


text \<open>
  Nothing in the flush loop compares the start of the segment it crosses into with the
  durable watermark: the red zone branch publishes \<^verbatim>\<open>new_sid->start_offset\<close> whatever
  \<^verbatim>\<open>_durable_lsn_offset\<close> was. After the call for offset 100 has returned and \<open>seg0\<close>
  has filled up, the segment manager hands out \<open>seg_back\<close>: the watermark falls from
  100 to 50, and a second call for offset 100 fails its first check, goes through the
  loop (mutex, kick, wait) and has not returned after it.
\<close>

theorem wait_for_durable_again_after_falling_watermark:
  "wait_for_durable ps0 100 [([Push 100, Remove_fast 1], flush_100)] s0 = Some (s_waited, 1)
   \<and> dur_lsn_offset s_waited = 100
   \<and> crossing_target ps0 (flush_into seg_back) (run ps0 fill_seg0 s_waited) = Some seg_back
   \<and> dur_lsn_offset (run ps0 (fill_seg0 @ [flush_into seg_back]) s_waited) = 50
   \<and> wait_for_durable ps0 100 [] (run ps0 (fill_seg0 @ [flush_into seg_back]) s_waited)
       = None
   \<and> wait_for_durable ps0 100 [([], [])]
        (run ps0 (fill_seg0 @ [flush_into seg_back]) s_waited) = None
   \<and> hd (trace (wait_round ps0 100 ([], [])
                   (run ps0 (fill_seg0 @ [flush_into seg_back]) s_waited)))
       = Wait_write_complete_cond"
  by (simp add: s_waited_def wait_round_def flush_100_def fill_seg0_def flush_into_def
        seg_back_def step_defs example_defs)

subsection \<open>Allocation\<close>

lemmas script_defs = script_straddle_def script_dead_zone_def script_fit_def

lemma populate_props:
  "lsn (populate l k nxt pb buf) = l"
  "nrec (populate l k nxt pb buf) = k"
  "rtype (records (populate l k nxt pb buf) (unat k)) = LOG_SKIP"
  "payload_end (records (populate l k nxt pb buf) (unat k)) = pb"
  "skip_next_lsn (records (populate l k nxt pb buf) (unat k)) = nxt"
  "i \<noteq> unat k \<Longrightarrow> records (populate l k nxt pb buf) i = records buf i"
  by (simp_all add: populate_def fill_skip_record_def Let_def)

lemma attempt_died_iff:
  "allocate_attempt ps sc nrec_arg payload_bytes s = Attempt_died \<longleftrightarrow>
     obtain_lsn_range ps nrec_arg payload_bytes (run ps (before_push sc) s) = None
     \<or> assign_segment sc = Throws"
  by (auto simp: allocate_attempt_def discard_def Let_def
      split: option.splits callee.splits prod.splits)

lemma attempt_returned:
  assumes "allocate_attempt ps sc nrec_arg payload_bytes s = Attempt_returned x s'"
  shows "\<exists>s1 rval sd b.
           obtain_lsn_range ps nrec_arg payload_bytes (run ps (before_push sc) s) = Some (x, s1)
           \<and> assign_segment sc = Returns rval \<and> sid rval = Some sd \<and> full_size rval
           \<and> blocks s' (addr x) = Some b
           \<and> lsn b = make_lsn sd (lsn_offset x)
           \<and> nrec b = nrec_arg
           \<and> rtype (records b (unat nrec_arg)) = LOG_SKIP
           \<and> payload_end (records b (unat nrec_arg)) = payload_bytes
           \<and> skip_next_lsn (records b (unat nrec_arg)) = next_lsn rval"
  using assms
  by (auto simp: allocate_attempt_def discard_def populate_props Let_def
      split: option.splits callee.splits prod.splits if_splits)

lemma allocate_some_cases:
  assumes "allocate ps scs nrec_arg payload_bytes s = Some r"
  shows "\<exists>sc s1. last_attempt ps scs nrec_arg payload_bytes s = Some (sc, s1)
           \<and> (r = Process_terminated
                \<and> allocate_attempt ps sc nrec_arg payload_bytes s1 = Attempt_died
              \<or> (\<exists>x s'. r = Returned x s'
                    \<and> allocate_attempt ps sc nrec_arg payload_bytes s1 = Attempt_returned x s'))"
  using assms
proof (induction scs arbitrary: s)
  case Nil
  then show ?case by simp
next
  case (Cons sc scs)
  show ?case
  proof (cases "allocate_attempt ps sc nrec_arg payload_bytes s")
    case Attempt_died
    with Cons.prems show ?thesis by auto
  next
    case (Attempt_start_over s')
    with Cons.prems have "allocate ps scs nrec_arg payload_bytes s' = Some r" by simp
    from Cons.IH [OF this] Attempt_start_over show ?thesis by simp
  next
    case (Attempt_returned x s')
    with Cons.prems show ?thesis by auto
  next
    case Attempt_waiting
    with Cons.prems show ?thesis by simp
  qed
qed

lemma obtain_lsn_range_size:
  "obtain_lsn_range ps nrec_arg payload_bytes s = Some (x, s1) \<Longrightarrow>
   next_lsn_offset x = lsn_offset x + block_size ps nrec_arg payload_bytes"
  by (auto simp: obtain_lsn_range_def push_callback_def allocate_cb_def Let_def
      split: if_splits option.splits)

lemma allocate_ended:
  assumes "allocate ps scs nrec_arg payload_bytes s = Some r"
  shows "\<exists>sc s1. last_attempt ps scs nrec_arg payload_bytes s = Some (sc, s1)
       \<and> ((r = Process_terminated
             \<and> (obtain_lsn_range ps nrec_arg payload_bytes (run ps (before_push sc) s1) = None
                \<or> assign_segment sc = Throws))
          \<or> (\<exists>x s' s2 b rval sd.
                r = Returned x s'
                \<and> obtain_lsn_range ps nrec_arg payload_bytes (run ps (before_push sc) s1)
                    = Some (x, s2)
                \<and> assign_segment sc = Returns rval \<and> sid rval = Some sd \<and> full_size rval
                \<and> next_lsn_offset x = lsn_offset x + block_size ps nrec_arg payload_bytes
                \<and> blocks s' (addr x) = Some b
                \<and> lsn b = make_lsn sd (lsn_offset x)
                \<and> nrec b = nrec_arg
                \<and> rtype (records b (unat nrec_arg)) = LOG_SKIP
                \<and> payload_end (records b (unat nrec_arg)) = payload_bytes
                \<and> skip_next_lsn (records b (unat nrec_arg)) = next_lsn rval))"
proof -
  from allocate_some_cases [OF assms]
  obtain sc s1 where la: "last_attempt ps scs nrec_arg payload_bytes s = Some (sc, s1)"
    and c: "r = Process_terminated
                \<and> allocate_attempt ps sc nrec_arg payload_bytes s1 = Attempt_died
              \<or> (\<exists>x s'. r = Returned x s'
                    \<and> allocate_attempt ps sc nrec_arg payload_bytes s1 = Attempt_returned x s')"
    by blast
  from c have "(r = Process_terminated
             \<and> (obtain_lsn_range ps nrec_arg payload_bytes (run ps (before_push sc) s1) = None
                \<or> assign_segment sc = Throws))
          \<or> (\<exists>x s' s2 b rval sd.
                r = Returned x s'
                \<and> obtain_lsn_range ps nrec_arg payload_bytes (run ps (before_push sc) s1)
                    = Some (x, s2)
                \<and> assign_segment sc = Returns rval \<and> sid rval = Some sd \<and> full_size rval
                \<and> next_lsn_offset x = lsn_offset x + block_size ps nrec_arg payload_bytes
                \<and> blocks s' (addr x) = Some b
                \<and> lsn b = make_lsn sd (lsn_offset x)
                \<and> nrec b = nrec_arg
                \<and> rtype (records b (unat nrec_arg)) = LOG_SKIP
                \<and> payload_end (records b (unat nrec_arg)) = payload_bytes
                \<and> skip_next_lsn (records b (unat nrec_arg)) = next_lsn rval)"
  proof
    assume "r = Process_terminated
                \<and> allocate_attempt ps sc nrec_arg payload_bytes s1 = Attempt_died"
    then show ?thesis by (simp add: attempt_died_iff)
  next
    assume "\<exists>x s'. r = Returned x s'
                    \<and> allocate_attempt ps sc nrec_arg payload_bytes s1 = Attempt_returned x s'"
    then obtain x s' where r: "r = Returned x s'"
      and a: "allocate_attempt ps sc nrec_arg payload_bytes s1 = Attempt_returned x s'" by blast
    from attempt_returned [OF a]
    obtain s2 rval sd b where
      p: "obtain_lsn_range ps nrec_arg payload_bytes (run ps (before_push sc) s1) = Some (x, s2)"
      and f: "assign_segment sc = Returns rval" "sid rval = Some sd" "full_size rval"
         "blocks s' (addr x) = Some b" "lsn b = make_lsn sd (lsn_offset x)" "nrec b = nrec_arg"
         "rtype (records b (unat nrec_arg)) = LOG_SKIP"
         "payload_end (records b (unat nrec_arg)) = payload_bytes"
         "skip_next_lsn (records b (unat nrec_arg)) = next_lsn rval"
      by blast
    note sz = obtain_lsn_range_size [OF p]
    have "\<exists>x s' s2 b rval sd.
                r = Returned x s'
                \<and> obtain_lsn_range ps nrec_arg payload_bytes (run ps (before_push sc) s1)
                    = Some (x, s2)
                \<and> assign_segment sc = Returns rval \<and> sid rval = Some sd \<and> full_size rval
                \<and> next_lsn_offset x = lsn_offset x + block_size ps nrec_arg payload_bytes
                \<and> blocks s' (addr x) = Some b
                \<and> lsn b = make_lsn sd (lsn_offset x)
                \<and> nrec b = nrec_arg
                \<and> rtype (records b (unat nrec_arg)) = LOG_SKIP
                \<and> payload_end (records b (unat nrec_arg)) = payload_bytes
                \<and> skip_next_lsn (records b (unat nrec_arg)) = next_lsn rval"
      apply (rule exI [of _ x], rule exI [of _ s'], rule exI [of _ s2], rule exI [of _ b],
             rule exI [of _ rval], rule exI [of _ sd])
      using r p f sz by simp
    then show ?thesis by (rule disjI2)
  qed
  with la show ?thesis by blast
qed

lemma fitting_pass_returns:
  assumes "obtain_lsn_range ps nrec_arg payload_bytes (run ps (before_push sc) s) = Some (x, s1)"
    and "assign_segment sc = Returns rval" and "sid rval = Some sd" and "full_size rval"
    and "buffer sc = Some buf"
  shows "\<exists>s'. allocate ps (sc # scs) nrec_arg payload_bytes s = Some (Returned x s')"
  using assms by (simp add: allocate_attempt_def Let_def)

text \<open>
  Claim C4. \<^verbatim>\<open>allocate\<close> has no error value to return. A call that ends does so in its
  last pass, either with the process terminated, which happens exactly when the push of
  that pass fails (the list was killed at shutdown) or \<^verbatim>\<open>assign_segment\<close> throws
  after the node was published, or with an allocation \<open>x\<close> whose block is set, with the
  header's \<open>lsn\<close> and \<open>nrec\<close> written and a skip record (next LSN and payload size as
  requested) in slot \<open>nrec\<close>. And a pass does return when its push succeeds, the
  segment takes the full size and \<^verbatim>\<open>write_buf\<close> grants the buffer.
\<close>

theorem allocate_result:
  "(\<forall>r. allocate ps scs nrec_arg payload_bytes s = Some r \<longrightarrow>
      (\<exists>sc s1. last_attempt ps scs nrec_arg payload_bytes s = Some (sc, s1)
         \<and> ((r = Process_terminated
               \<and> (obtain_lsn_range ps nrec_arg payload_bytes (run ps (before_push sc) s1) = None
                  \<or> assign_segment sc = Throws))
            \<or> (\<exists>x s' s2 b rval sd.
                  r = Returned x s'
                  \<and> obtain_lsn_range ps nrec_arg payload_bytes (run ps (before_push sc) s1)
                      = Some (x, s2)
                  \<and> assign_segment sc = Returns rval \<and> sid rval = Some sd \<and> full_size rval
                  \<and> next_lsn_offset x = lsn_offset x + block_size ps nrec_arg payload_bytes
                  \<and> blocks s' (addr x) = Some b
                  \<and> lsn b = make_lsn sd (lsn_offset x)
                  \<and> nrec b = nrec_arg
                  \<and> rtype (records b (unat nrec_arg)) = LOG_SKIP
                  \<and> payload_end (records b (unat nrec_arg)) = payload_bytes
                  \<and> skip_next_lsn (records b (unat nrec_arg)) = next_lsn rval))))
   \<and> (\<forall>sc scs' x s1 rval sd buf.
         scs = sc # scs'
         \<and> obtain_lsn_range ps nrec_arg payload_bytes (run ps (before_push sc) s) = Some (x, s1)
         \<and> assign_segment sc = Returns rval \<and> sid rval = Some sd \<and> full_size rval
         \<and> buffer sc = Some buf
         \<longrightarrow> (\<exists>s'. allocate ps scs nrec_arg payload_bytes s = Some (Returned x s')))"
proof (intro conjI allI impI)
  fix r assume "allocate ps scs nrec_arg payload_bytes s = Some r"
  then show "\<exists>sc s1. last_attempt ps scs nrec_arg payload_bytes s = Some (sc, s1)
         \<and> ((r = Process_terminated
               \<and> (obtain_lsn_range ps nrec_arg payload_bytes (run ps (before_push sc) s1) = None
                  \<or> assign_segment sc = Throws))
            \<or> (\<exists>x s' s2 b rval sd.
                  r = Returned x s'
                  \<and> obtain_lsn_range ps nrec_arg payload_bytes (run ps (before_push sc) s1)
                      = Some (x, s2)
                  \<and> assign_segment sc = Returns rval \<and> sid rval = Some sd \<and> full_size rval
                  \<and> next_lsn_offset x = lsn_offset x + block_size ps nrec_arg payload_bytes
                  \<and> blocks s' (addr x) = Some b
                  \<and> lsn b = make_lsn sd (lsn_offset x)
                  \<and> nrec b = nrec_arg
                  \<and> rtype (records b (unat nrec_arg)) = LOG_SKIP
                  \<and> payload_end (records b (unat nrec_arg)) = payload_bytes
                  \<and> skip_next_lsn (records b (unat nrec_arg)) = next_lsn rval))"
    by (rule allocate_ended)
next
  fix sc scs' x s1 rval sd buf
  assume h: "scs = sc # scs'
         \<and> obtain_lsn_range ps nrec_arg payload_bytes (run ps (before_push sc) s) = Some (x, s1)
         \<and> assign_segment sc = Returns rval \<and> sid rval = Some sd \<and> full_size rval
         \<and> buffer sc = Some buf"
  then have "\<exists>s'. allocate ps (sc # scs') nrec_arg payload_bytes s = Some (Returned x s')"
    by (intro fitting_pass_returns [of ps nrec_arg payload_bytes sc s x s1 rval sd buf]) simp_all
  with h show "\<exists>s'. allocate ps scs nrec_arg payload_bytes s = Some (Returned x s')" by simp
qed

theorem allocate_result_witness:
  "\<exists>x s'. allocate ps0 [script_straddle, script_dead_zone, script_fit] 1 64 s0 = Some (Returned x s')
      \<and> lsn_offset x = 1300 \<and> next_lsn_offset x = 1428
      \<and> (\<exists>b. blocks s' (addr x) = Some b \<and> nrec b = 1
             \<and> rtype (records b 1) = LOG_SKIP \<and> payload_end (records b 1) = 64)"
proof -
  have "\<exists>x s'. allocate ps0 [script_straddle, script_dead_zone, script_fit] 1 64 s0 = Some (Returned x s')
          \<and> lsn_offset x = 1300"
    by (simp add: allocate_attempt_def discard_def discard_block_def release_def populate_def
          fill_skip_record_def wait_round_def script_defs blk0_def step_defs example_defs)
  then obtain x s' where
    h: "allocate ps0 [script_straddle, script_dead_zone, script_fit] 1 64 s0 = Some (Returned x s')"
    and l: "lsn_offset x = 1300" by blast
  from allocate_result [of ps0 "[script_straddle, script_dead_zone, script_fit]" 1 64 s0] h
  have "\<exists>b rval sd. next_lsn_offset x = lsn_offset x + block_size ps0 1 64
          \<and> blocks s' (addr x) = Some b \<and> nrec b = 1
          \<and> rtype (records b (unat (1 :: u32))) = LOG_SKIP
          \<and> payload_end (records b (unat (1 :: u32))) = 64"
    by (elim conjE allE [of _ "Returned x s'"]) auto
  with l have
    "next_lsn_offset x = 1428
      \<and> (\<exists>b. blocks s' (addr x) = Some b \<and> nrec b = 1
             \<and> rtype (records b 1) = LOG_SKIP \<and> payload_end (records b 1) = 64)"
    by (auto simp: ps0_def)
  with h l show ?thesis by blast
qed

text \<open>
  Claim C5. In a pass where \<^verbatim>\<open>assign_segment\<close> returns a segment with
  \<open>full_size\<close> false (and buffer space is granted), the buffer is requested for exactly
  \<open>end_offset - lsn_offset\<close> bytes, the block is written with \<open>nrec = 0\<close> and a skip
  record of payload size 0 in slot 0, \<^verbatim>\<open>discard\<close> is called on it, and the call starts
  over from step 1 in the state \<^verbatim>\<open>discard\<close> leaves.
\<close>

theorem allocate_straddle_filler:
  assumes "obtain_lsn_range ps nrec_arg payload_bytes (run ps (before_push sc) s) = Some (x, s1)"
    and "assign_segment sc = Returns rval" and "sid rval = Some sd" and "\<not> full_size rval"
    and "buffer sc = Some buf"
  shows "\<exists>s4 s5 b.
           allocate_attempt ps sc nrec_arg payload_bytes s = Attempt_start_over s5
         \<and> discard ps (addr x) s4 = Some s5
         \<and> hd (trace s4)
             = Write_buf (buf_offset ps sd (lsn_offset x)) (end_offset sd - lsn_offset x) True
         \<and> blocks s4 (addr x) = Some b
         \<and> lsn b = make_lsn sd (lsn_offset x)
         \<and> nrec b = 0
         \<and> rtype (records b 0) = LOG_SKIP
         \<and> payload_end (records b 0) = 0
         \<and> skip_next_lsn (records b 0) = next_lsn rval
         \<and> (\<forall>scs. allocate ps (sc # scs) nrec_arg payload_bytes s
                    = allocate ps scs nrec_arg payload_bytes s5)"
proof -
  let ?l = "make_lsn sd (lsn_offset x)"
  let ?n = "end_offset sd - lsn_offset x"
  let ?at = "buf_offset ps sd (offset ?l)"
  let ?s2 = "grab_buffer ps ?at ?n (offset ?l - window_size ps) (buffer_waits sc) s1"
  let ?s3 = "emit (Write_buf ?at ?n True) ?s2"
  let ?b = "populate ?l 0 (next_lsn rval) 0 buf"
  let ?s4 = "?s3\<lparr>blocks := (blocks ?s3)(addr x := Some ?b)\<rparr>"
  let ?s5 = "release (addr x) (?s4\<lparr>blocks := (blocks ?s4)(addr x := Some (discard_block ps ?b))\<rparr>)"
  have d: "discard ps (addr x) ?s4 = Some ?s5"
    by (simp add: discard_def)
  have att: "allocate_attempt ps sc nrec_arg payload_bytes s = Attempt_start_over ?s5"
    using assms d by (simp add: allocate_attempt_def Let_def)
  have tr: "hd (trace ?s4)
              = Write_buf (buf_offset ps sd (lsn_offset x)) (end_offset sd - lsn_offset x) True"
    by (simp add: emit_def make_lsn_def)
  have bl: "blocks ?s4 (addr x) = Some ?b" by simp
  have pp: "lsn ?b = make_lsn sd (lsn_offset x)" "nrec ?b = 0" "rtype (records ?b 0) = LOG_SKIP"
    "payload_end (records ?b 0) = 0" "skip_next_lsn (records ?b 0) = next_lsn rval"
    using populate_props(1-5) [of ?l 0 "next_lsn rval" 0 buf] by simp_all
  have al: "\<forall>scs. allocate ps (sc # scs) nrec_arg payload_bytes s
                    = allocate ps scs nrec_arg payload_bytes ?s5"
    using att by simp
  show ?thesis
    apply (rule exI [of _ ?s4], rule exI [of _ ?s5], rule exI [of _ ?b])
    using att d tr bl pp al by blast
qed

theorem allocate_straddle_filler_witness:
  "\<exists>x s1 s5. obtain_lsn_range ps0 1 64 (run ps0 (before_push script_straddle) s0) = Some (x, s1)
      \<and> lsn_offset x = 900 \<and> next_lsn_offset x = 1028
      \<and> assign_segment script_straddle
          = Returns \<lparr>sid = Some seg0, full_size = False, next_lsn = \<lparr>segment = 1, offset = 1300\<rparr>\<rparr>
      \<and> buffer script_straddle = Some blk0
      \<and> allocate_attempt ps0 script_straddle 1 64 s0 = Attempt_start_over s5
      \<and> (\<exists>s4 b. discard ps0 (addr x) s4 = Some s5
            \<and> hd (trace s4) = Write_buf 900 100 True
            \<and> blocks s4 (addr x) = Some b \<and> nrec b = 0 \<and> payload_end (records b 0) = 0)"
proof -
  have "\<exists>x s1. obtain_lsn_range ps0 1 64 (run ps0 (before_push script_straddle) s0) = Some (x, s1)
          \<and> lsn_offset x = 900 \<and> next_lsn_offset x = 1028"
    by (simp add: script_defs step_defs example_defs)
  then obtain x s1 where
    h: "obtain_lsn_range ps0 1 64 (run ps0 (before_push script_straddle) s0) = Some (x, s1)"
    and l: "lsn_offset x = 900" "next_lsn_offset x = 1028" by blast
  have a: "assign_segment script_straddle
          = Returns \<lparr>sid = Some seg0, full_size = False, next_lsn = \<lparr>segment = 1, offset = 1300\<rparr>\<rparr>"
    and b: "buffer script_straddle = Some blk0"
    by (simp_all add: script_defs)
  from allocate_straddle_filler [OF h a _ _ b, of seg0] l
  obtain s4 s5 b' where
     "allocate_attempt ps0 script_straddle 1 64 s0 = Attempt_start_over s5"
     "discard ps0 (addr x) s4 = Some s5"
     "hd (trace s4) = Write_buf 900 100 True"
     "blocks s4 (addr x) = Some b'" "nrec b' = 0" "payload_end (records b' 0) = 0"
    by (auto simp: ps0_def seg0_def)
  with h l a b show ?thesis by blast
qed

end
